theory Spec2Isabelle
  imports Complex_Main
begin

section \<open>The PostCSS plugin of Tailwind CSS: data model\<close>

text \<open>
  The source is the plugin function \<^verbatim>\<open>tailwindcss(opts)\<close> and its \<^verbatim>\<open>OnceExit\<close> hook.
  The compiler, the scanner, the optimizer and the file system are collaborators of the
  hook: they are parameters of the model (the record \<open>world\<close>), one value per invocation.
\<close>

type_synonym path = string

text \<open>\<^verbatim>\<open>mtimeMs\<close> is a number that the code only compares with \<^verbatim>\<open>===\<close>.\<close>

type_synonym mtime = rat

text \<open>An exception thrown by a collaborator, carried as a value.\<close>

datatype error = Thrown string

text \<open>A glob \<^verbatim>\<open>{ base, pattern }\<close>.\<close>

type_synonym glob = "path \<times> string"

text \<open>
  \<^verbatim>\<open>PluginOptions\<close>: \<^verbatim>\<open>optimize?: boolean | { minify?: boolean }\<close>.
\<close>

datatype optimize_value = OptBool bool | OptObject "bool option"

record PluginOptions =
  base :: "path option"
  optimize :: "optimize_value option"

text \<open>What \<^verbatim>\<open>process.cwd()\<close> and \<^verbatim>\<open>process.env.NODE_ENV\<close> give.\<close>

record process =
  cwd :: path
  NODE_ENV :: "string option"

text \<open>The two variables \<^verbatim>\<open>base\<close> and \<^verbatim>\<open>optimize\<close> that the hook closes over.\<close>

record plugin =
  plugin_base :: path
  plugin_optimize :: optimize_value

text \<open>The entries of \<^verbatim>\<open>result.messages\<close>: type, plugin, then the payload and the parent.\<close>

datatype message =
    Dependency string path "path option"
  | DirDependency string path string "path option"
  | OtherMessage string

datatype rebuildStrategy = Full | Incremental

text \<open>
  The value the \<^verbatim>\<open>DefaultMap\<close> factory creates: one cache entry. The compiler handle
  is an opaque value of type \<open>'c\<close>.
\<close>

record 'c cache_entry =
  mtimes :: "path \<rightharpoonup> mtime"
  compiler :: "'c option"
  css :: string
  optimizedCss :: string
  fullRebuildPaths :: "path list"

text \<open>
  The collaborators, as one invocation sees them:
  \<^item> \<open>stat f\<close> is \<^verbatim>\<open>fs.statSync(f, { throwIfNoEntry: false })?.mtimeMs ?? null\<close>;
  \<^item> \<open>dirname_resolve f\<close> is \<^verbatim>\<open>path.dirname(path.resolve(f))\<close>;
  \<^item> \<open>compile css base\<close> gives the paths handed to \<^verbatim>\<open>onDependency\<close>, in order, and the
    handle or the exception;
  \<^item> \<open>globs c\<close> is \<^verbatim>\<open>compiler.globs\<close>;
  \<^item> \<open>build c candidates\<close> gives the handle after the call and the CSS or the exception;
  \<^item> \<open>scan base sources\<close> gives \<^verbatim>\<open>scanner.scan()\<close>, \<^verbatim>\<open>scanner.files\<close> and
    \<^verbatim>\<open>scanner.globs\<close>;
  \<^item> \<open>transform code minify\<close> is the Lightning CSS call of \<^verbatim>\<open>optimizeCss\<close>, whose other
    arguments are constants.
\<close>

record 'c world =
  stat :: "path \<Rightarrow> mtime option"
  dirname_resolve :: "path \<Rightarrow> path"
  compile :: "string \<Rightarrow> path \<Rightarrow> path list \<times> (error + 'c)"
  globs :: "'c \<Rightarrow> glob list"
  build :: "'c \<Rightarrow> string list \<Rightarrow> 'c \<times> (error + string)"
  scan :: "path \<Rightarrow> glob list \<Rightarrow> string list \<times> path list \<times> glob list"
  transform :: "string \<Rightarrow> bool \<Rightarrow> string"

text \<open>
  A log of what a pass did, in order: the calls to the collaborators (with the value
  \<^verbatim>\<open>build\<close> returned) and the value of \<^verbatim>\<open>rebuildStrategy\<close> when the loop over the
  files ends. Nothing in the pass reads the log.
\<close>

datatype event =
    ClearRequireCache "path list"
  | Compile string path
  | Decided rebuildStrategy
  | Scan path "glob list"
  | Build "string list" "error + string"
  | Optimize string bool

record 'c pass_state =
  ctx :: "'c cache_entry"
  messages :: "message list"
  events :: "event list"

section \<open>The plugin function\<close>

text \<open>
  \<^verbatim>\<open>let base = opts.base ?? process.cwd()\<close> and
  \<^verbatim>\<open>let optimize = opts.optimize ?? process.env.NODE_ENV === 'production'\<close>.
\<close>

definition tailwindcss :: "process \<Rightarrow> PluginOptions \<Rightarrow> plugin" where
  "tailwindcss pr opts =
     \<lparr>plugin_base = (case base opts of Some b \<Rightarrow> b | None \<Rightarrow> cwd pr),
      plugin_optimize =
        (case optimize opts of
           Some v \<Rightarrow> v
         | None \<Rightarrow> OptBool (NODE_ENV pr = Some ''production''))\<rparr>"

text \<open>\<^verbatim>\<open>opts = {}\<close>, the default argument.\<close>

definition no_options :: PluginOptions where
  "no_options = \<lparr>base = None, optimize = None\<rparr>"

text \<open>The truth value of \<^verbatim>\<open>optimize\<close> in a condition: an object is truthy.\<close>

fun truthy :: "optimize_value \<Rightarrow> bool" where
  "truthy (OptBool b) = b"
| "truthy (OptObject m) = True"

text \<open>
  \<^verbatim>\<open>minify: typeof optimize === 'object' ? optimize.minify : true\<close>, and the default
  \<^verbatim>\<open>minify = false\<close> of \<^verbatim>\<open>optimizeCss\<close> where the property is undefined.
\<close>

fun minify_of :: "optimize_value \<Rightarrow> bool" where
  "minify_of (OptBool b) = True"
| "minify_of (OptObject None) = False"
| "minify_of (OptObject (Some b)) = b"

definition optimizeCss :: "'c world \<Rightarrow> string \<Rightarrow> bool \<Rightarrow> string" where
  "optimizeCss w input minify = transform w input minify"

section \<open>The cache\<close>

text \<open>The factory of the cache.\<close>

definition newContext :: "'c cache_entry" where
  "newContext =
     \<lparr>mtimes = Map.empty, compiler = None, css = [], optimizedCss = [],
      fullRebuildPaths = []\<rparr>"

text \<open>\<^verbatim>\<open>DefaultMap.get\<close>: the value and the map, which has the key afterwards.\<close>

definition DefaultMap_get ::
  "('k \<Rightarrow> 'v) \<Rightarrow> ('k \<rightharpoonup> 'v) \<Rightarrow> 'k \<Rightarrow> 'v \<times> ('k \<rightharpoonup> 'v)" where
  "DefaultMap_get factory m key =
     (case m key of
        Some v \<Rightarrow> (v, m)
      | None \<Rightarrow> (factory key, m(key \<mapsto> factory key)))"

section \<open>One pass of the hook\<close>

text \<open>\<^verbatim>\<open>result.opts.from ?? ''\<close>.\<close>

definition inputFile_of :: "path option \<Rightarrow> path" where
  "inputFile_of from = (case from of Some f \<Rightarrow> f | None \<Rightarrow> [])"

text \<open>
  \<^verbatim>\<open>createCompiler\<close>: the require cache is cleared, \<^verbatim>\<open>fullRebuildPaths\<close> is emptied and
  filled by \<^verbatim>\<open>onDependency\<close> while \<^verbatim>\<open>compile\<close> runs, also when \<^verbatim>\<open>compile\<close> throws.
\<close>

definition createCompiler ::
  "'c world \<Rightarrow> string \<Rightarrow> path \<Rightarrow> 'c pass_state \<Rightarrow> 'c pass_state \<times> (error + 'c)" where
  "createCompiler w rootCss inputBasePath s =
     (case compile w rootCss inputBasePath of
        (deps, r) \<Rightarrow>
          (s\<lparr>ctx := (ctx s)\<lparr>fullRebuildPaths := deps\<rparr>,
             events := events s @
               [ClearRequireCache (fullRebuildPaths (ctx s)), Compile rootCss inputBasePath]\<rparr>,
           r))"

text \<open>\<^verbatim>\<open>context.compiler ??= await createCompiler()\<close>.\<close>

definition ensureCompiler ::
  "'c world \<Rightarrow> string \<Rightarrow> path \<Rightarrow> 'c pass_state \<Rightarrow> 'c pass_state \<times> (error + 'c)" where
  "ensureCompiler w rootCss inputBasePath s =
     (case compiler (ctx s) of
        Some c \<Rightarrow> (s, Inr c)
      | None \<Rightarrow>
          (case createCompiler w rootCss inputBasePath s of
             (s', Inl e) \<Rightarrow> (s', Inl e)
           | (s', Inr c) \<Rightarrow> (s'\<lparr>ctx := (ctx s')\<lparr>compiler := Some c\<rparr>\<rparr>, Inr c)))"

text \<open>The \<^verbatim>\<open>flatMap\<close> over \<^verbatim>\<open>result.messages\<close>.\<close>

fun dependency_file :: "message \<Rightarrow> path list" where
  "dependency_file (Dependency pl file parent) = [file]"
| "dependency_file (DirDependency pl dir gl parent) = []"
| "dependency_file (OtherMessage ty) = []"

text \<open>
  The loop \<^verbatim>\<open>for (let file of files)\<close>, on the pair of \<^verbatim>\<open>rebuildStrategy\<close> and
  \<^verbatim>\<open>context.mtimes\<close>.
\<close>

fun trackFiles ::
  "(path \<Rightarrow> mtime option) \<Rightarrow> path \<Rightarrow> path list \<Rightarrow>
   rebuildStrategy \<times> (path \<rightharpoonup> mtime) \<Rightarrow> rebuildStrategy \<times> (path \<rightharpoonup> mtime)" where
  "trackFiles st inputFile [] acc = acc"
| "trackFiles st inputFile (file # files) (strategy, mt) =
     (case st file of
        None \<Rightarrow>
          trackFiles st inputFile files
            (if file = inputFile then Full else strategy, mt)
      | Some changedTime \<Rightarrow>
          if mt file = Some changedTime then trackFiles st inputFile files (strategy, mt)
          else trackFiles st inputFile files (Full, mt(file \<mapsto> changedTime)))"

text \<open>
  The block "Track file modification times to CSS files": the dependency messages for
  \<^verbatim>\<open>fullRebuildPaths\<close>, the list of files, the loop.
\<close>

definition trackModificationTimes ::
  "'c world \<Rightarrow> path option \<Rightarrow> 'c pass_state \<Rightarrow> rebuildStrategy \<times> 'c pass_state" where
  "trackModificationTimes w from s =
     (let inputFile = inputFile_of from;
          msgs = messages s @
            map (\<lambda>file. Dependency ''@tailwindcss/postcss'' file from)
              (fullRebuildPaths (ctx s));
          files = concat (map dependency_file msgs) @ [inputFile]
      in case trackFiles (stat w) inputFile files (Incremental, mtimes (ctx s)) of
           (rebuildStrategy, mt) \<Rightarrow>
             (rebuildStrategy,
              s\<lparr>ctx := (ctx s)\<lparr>mtimes := mt\<rparr>, messages := msgs,
                events := events s @ [Decided rebuildStrategy]\<rparr>))"

text \<open>
  The scanner is created and run, and its files and globs are reported as messages.
\<close>

definition scanCandidates ::
  "plugin \<Rightarrow> 'c world \<Rightarrow> path option \<Rightarrow> 'c \<Rightarrow> 'c pass_state \<Rightarrow> string list \<times> 'c pass_state" where
  "scanCandidates p w from c s =
     (case scan w (plugin_base p) (globs w c) of
        (candidates, files, gs) \<Rightarrow>
          (candidates,
           s\<lparr>messages := messages s @
                map (\<lambda>file. Dependency ''@tailwindcss/postcss'' file from) files @
                map (\<lambda>(b, pattern). DirDependency ''@tailwindcss/postcss'' b pattern from) gs,
              events := events s @ [Scan (plugin_base p) (globs w c)]\<rparr>))"

text \<open>\<^verbatim>\<open>if (rebuildStrategy === 'full') context.compiler = await createCompiler()\<close>.\<close>

definition rebuildCompiler ::
  "'c world \<Rightarrow> string \<Rightarrow> path \<Rightarrow> rebuildStrategy \<Rightarrow> 'c \<Rightarrow> 'c pass_state \<Rightarrow>
   'c pass_state \<times> (error + 'c)" where
  "rebuildCompiler w rootCss inputBasePath strategy c s =
     (if strategy = Full then
        (case createCompiler w rootCss inputBasePath s of
           (s', Inl e) \<Rightarrow> (s', Inl e)
         | (s', Inr c') \<Rightarrow> (s'\<lparr>ctx := (ctx s')\<lparr>compiler := Some c'\<rparr>\<rparr>, Inr c'))
      else (s, Inr c))"

text \<open>\<^verbatim>\<open>css = context.compiler.build(candidates)\<close>; the handle is the one after the call.\<close>

definition buildCss ::
  "'c world \<Rightarrow> 'c \<Rightarrow> string list \<Rightarrow> 'c pass_state \<Rightarrow> 'c pass_state \<times> (error + string)" where
  "buildCss w c candidates s =
     (case build w c candidates of
        (c', r) \<Rightarrow>
          (s\<lparr>ctx := (ctx s)\<lparr>compiler := Some c'\<rparr>,
             events := events s @ [Build candidates r]\<rparr>, r))"

text \<open>
  The block "Replace CSS" and the update of the PostCSS tree: the result is the text given
  to \<^verbatim>\<open>postcss.parse\<close>, which replaces the content of the root.
\<close>

definition replaceCss ::
  "plugin \<Rightarrow> 'c world \<Rightarrow> string \<Rightarrow> 'c pass_state \<Rightarrow> 'c pass_state \<times> string" where
  "replaceCss p w newCss s =
     (let s1 =
            (if newCss \<noteq> css (ctx s) \<and> truthy (plugin_optimize p) then
               s\<lparr>ctx := (ctx s)\<lparr>optimizedCss :=
                      optimizeCss w newCss (minify_of (plugin_optimize p))\<rparr>,
                  events := events s @ [Optimize newCss (minify_of (plugin_optimize p))]\<rparr>
             else s);
          s2 = s1\<lparr>ctx := (ctx s1)\<lparr>css := newCss\<rparr>\<rparr>
      in (s2, if truthy (plugin_optimize p) then optimizedCss (ctx s2) else css (ctx s2)))"

text \<open>
  The end of the pass, from \<^verbatim>\<open>if (rebuildStrategy === 'full')\<close> on: the handle is
  created again under \<open>Full\<close>, the CSS is built and the root is replaced.
\<close>

definition buildAndReplace ::
  "plugin \<Rightarrow> 'c world \<Rightarrow> string \<Rightarrow> path \<Rightarrow> rebuildStrategy \<Rightarrow> 'c \<Rightarrow> string list \<Rightarrow>
   'c pass_state \<Rightarrow> 'c pass_state \<times> (error + string)" where
  "buildAndReplace p w rootCss inputBasePath strategy c candidates s =
     (case rebuildCompiler w rootCss inputBasePath strategy c s of
        (s4, Inl e) \<Rightarrow> (s4, Inl e)
      | (s4, Inr c4) \<Rightarrow>
          (case buildCss w c4 candidates s4 of
             (s5, Inl e) \<Rightarrow> (s5, Inl e)
           | (s5, Inr newCss) \<Rightarrow>
               (case replaceCss p w newCss s5 of
                  (s6, out) \<Rightarrow> (s6, Inr out))))"

text \<open>
  The body of \<^verbatim>\<open>OnceExit\<close> on the cache entry \<open>context\<close>: \<open>rootCss\<close> is
  \<^verbatim>\<open>root.toString()\<close>, \<open>from\<close> is \<^verbatim>\<open>result.opts.from\<close> and \<open>msgs\<close> is
  \<^verbatim>\<open>result.messages\<close> when the hook starts. The state comes back also when the pass
  throws, since the entry and the messages are changed in place.
\<close>

definition OnceExit_entry ::
  "plugin \<Rightarrow> 'c world \<Rightarrow> string \<Rightarrow> path option \<Rightarrow> message list \<Rightarrow> 'c cache_entry \<Rightarrow>
   'c pass_state \<times> (error + string)" where
  "OnceExit_entry p w rootCss from msgs context =
     (let inputBasePath = dirname_resolve w (inputFile_of from);
          s0 = \<lparr>ctx = context, messages = msgs, events = []\<rparr>
      in case ensureCompiler w rootCss inputBasePath s0 of
           (s1, Inl e) \<Rightarrow> (s1, Inl e)
         | (s1, Inr c1) \<Rightarrow>
             (case trackModificationTimes w from s1 of
                (strategy, s2) \<Rightarrow>
                  (case scanCandidates p w from c1 s2 of
                     (candidates, s3) \<Rightarrow>
                       buildAndReplace p w rootCss inputBasePath strategy c1 candidates s3)))"

text \<open>
  \<^verbatim>\<open>OnceExit\<close> with the lookup in the cache of the plugin instance. The entry is an object
  of the map that the pass changes in place.
\<close>

definition OnceExit ::
  "plugin \<Rightarrow> 'c world \<Rightarrow> string \<Rightarrow> path option \<Rightarrow> message list \<Rightarrow> (path \<rightharpoonup> 'c cache_entry) \<Rightarrow>
   (path \<rightharpoonup> 'c cache_entry) \<times> 'c pass_state \<times> (error + string)" where
  "OnceExit p w rootCss from msgs cache =
     (let inputFile = inputFile_of from in
      case DefaultMap_get (\<lambda>key. newContext) cache inputFile of
        (context, cache1) \<Rightarrow>
          (case OnceExit_entry p w rootCss from msgs context of
             (s, r) \<Rightarrow> (cache1(inputFile \<mapsto> ctx s), s, r)))"

text \<open>
  A sequence of passes on one cache entry, each with the collaborators, the root and the
  messages of its own invocation; the input is the same, so \<open>from\<close> is.
\<close>

record 'c invocation =
  inv_world :: "'c world"
  inv_root :: string
  inv_messages :: "message list"

fun OnceExit_sequence ::
  "plugin \<Rightarrow> path option \<Rightarrow> 'c cache_entry \<Rightarrow> 'c invocation list \<Rightarrow>
   ('c pass_state \<times> (error + string)) list" where
  "OnceExit_sequence p from context [] = []"
| "OnceExit_sequence p from context (i # rest) =
     (case OnceExit_entry p (inv_world i) (inv_root i) from (inv_messages i) context of
        (s, r) \<Rightarrow> (s, r) # OnceExit_sequence p from (ctx s) rest)"

text \<open>
  The list \<^verbatim>\<open>files\<close> of the loop when \<^verbatim>\<open>result.messages\<close> is \<open>msgs\<close> at the start
  of the hook and \<^verbatim>\<open>fullRebuildPaths\<close> is \<open>paths\<close>.
\<close>

definition checked_files :: "path option \<Rightarrow> message list \<Rightarrow> path list \<Rightarrow> path list" where
  "checked_files from msgs paths =
     concat (map dependency_file msgs) @ paths @ [inputFile_of from]"

text \<open>
  \<^verbatim>\<open>fullRebuildPaths\<close> when the loop starts: the paths of the entry, or what
  \<^verbatim>\<open>onDependency\<close> reported when the entry had no handle and one was created first.
\<close>

definition tracked_paths ::
  "'c world \<Rightarrow> string \<Rightarrow> path option \<Rightarrow> 'c cache_entry \<Rightarrow> path list" where
  "tracked_paths w rootCss from context =
     (case compiler context of
        Some c \<Rightarrow> fullRebuildPaths context
      | None \<Rightarrow> fst (compile w rootCss (dirname_resolve w (inputFile_of from))))"

text \<open>How many times a pass called the optimizer.\<close>

fun is_Optimize :: "event \<Rightarrow> bool" where
  "is_Optimize (Optimize code minify) = True"
| "is_Optimize e = False"

definition optimize_calls :: "'c pass_state \<Rightarrow> nat" where
  "optimize_calls s = length (filter is_Optimize (events s))"

section \<open>A small project, for concrete runs\<close>

text \<open>
  The entry point \<^verbatim>\<open>a.css\<close> imports \<^verbatim>\<open>b.css\<close> and loads \<^verbatim>\<open>gone.js\<close>, which is not on
  disk. The argument of \<open>example_stat\<close> is what \<^verbatim>\<open>statSync\<close> finds for \<^verbatim>\<open>b.css\<close>. The
  handle is a number that counts the builds made with it.
\<close>

definition example_plugin :: plugin where
  "example_plugin = \<lparr>plugin_base = ''/app'', plugin_optimize = OptBool True\<rparr>"

definition example_stat :: "mtime option \<Rightarrow> path \<Rightarrow> mtime option" where
  "example_stat b f =
     (if f = ''a.css'' then Some 1 else if f = ''b.css'' then b else None)"

definition example_compile :: "string \<Rightarrow> path \<Rightarrow> path list \<times> (error + nat)" where
  "example_compile rootCss inputBasePath = ([''b.css'', ''gone.js''], Inr 0)"

definition example_build :: "nat \<Rightarrow> string list \<Rightarrow> nat \<times> (error + string)" where
  "example_build c candidates = (Suc c, Inr (concat candidates))"

definition failing_build :: "nat \<Rightarrow> string list \<Rightarrow> nat \<times> (error + string)" where
  "failing_build c candidates = (c, Inl (Thrown ''build failed''))"

definition example_world ::
  "mtime option \<Rightarrow> (nat \<Rightarrow> string list \<Rightarrow> nat \<times> (error + string)) \<Rightarrow> nat world" where
  "example_world b bd =
     \<lparr>stat = example_stat b, dirname_resolve = (\<lambda>f. ''/app''), compile = example_compile,
      globs = (\<lambda>c. [(''/app'', ''*.html'')]), build = bd,
      scan = (\<lambda>dir sources. ([''flex''], [''index.html''], sources)),
      transform = (\<lambda>code minify. ''min '' @ code)\<rparr>"

definition example_invocation :: "mtime option \<Rightarrow> nat invocation" where
  "example_invocation b =
     \<lparr>inv_world = example_world b example_build, inv_root = ''@import'', inv_messages = []\<rparr>"

text \<open>The cache entry of \<^verbatim>\<open>a.css\<close> after the first pass, with \<^verbatim>\<open>b.css\<close> on disk.\<close>

definition example_entry :: "nat cache_entry" where
  "example_entry =
     ctx (fst (OnceExit_entry example_plugin (example_world (Some 1) example_build) ''@import''
       (Some ''a.css'') [] newContext))"

text \<open>Three passes on \<^verbatim>\<open>a.css\<close> from a new entry, nothing changing on disk.\<close>

definition example_passes :: "(nat pass_state \<times> (error + string)) list" where
  "example_passes =
     OnceExit_sequence example_plugin (Some ''a.css'') newContext
       [example_invocation (Some 1), example_invocation (Some 1), example_invocation (Some 1)]"

text \<open>
  Passes on that entry: nothing changed; \<^verbatim>\<open>b.css\<close> touched; \<^verbatim>\<open>b.css\<close> deleted, and
  then back with its old time; a build that throws; a plugin that does not optimize.
\<close>

definition steady_pass :: "nat pass_state \<times> (error + string)" where
  "steady_pass =
     OnceExit_entry example_plugin (example_world (Some 1) example_build) ''@import''
       (Some ''a.css'') [] example_entry"

definition touched_pass :: "nat pass_state \<times> (error + string)" where
  "touched_pass =
     OnceExit_entry example_plugin (example_world (Some 2) example_build) ''@import''
       (Some ''a.css'') [] example_entry"

definition deleted_pass :: "nat pass_state \<times> (error + string)" where
  "deleted_pass =
     OnceExit_entry example_plugin (example_world None example_build) ''@import''
       (Some ''a.css'') [] example_entry"

definition restored_pass :: "nat pass_state \<times> (error + string)" where
  "restored_pass =
     OnceExit_entry example_plugin (example_world (Some 1) example_build) ''@import''
       (Some ''a.css'') [] (ctx (fst deleted_pass))"

definition failed_pass :: "nat pass_state \<times> (error + string)" where
  "failed_pass =
     OnceExit_entry example_plugin (example_world (Some 1) failing_build) ''@import''
       (Some ''a.css'') [] example_entry"

definition raw_plugin :: plugin where
  "raw_plugin = \<lparr>plugin_base = ''/app'', plugin_optimize = OptBool False\<rparr>"

definition raw_pass :: "nat pass_state \<times> (error + string)" where
  "raw_pass =
     OnceExit_entry raw_plugin (example_world (Some 1) example_build) ''@import''
       (Some ''a.css'') [] example_entry"

section \<open>The loop over the files\<close>

text \<open>
  A list of files that are all either missing and not the entry point, or recorded with
  the time found on disk, leaves the strategy and the clock as they are.
\<close>

lemma trackFiles_unchanged:
  "\<forall>f \<in> set files. (st f = None \<longrightarrow> f \<noteq> inp) \<and> (\<forall>t. st f = Some t \<longrightarrow> mt f = Some t) \<Longrightarrow>
   trackFiles st inp files (s, mt) = (s, mt)"
proof (induction files)
  case Nil
  then show ?case by simp
next
  case (Cons a files)
  then have tl: "trackFiles st inp files (s, mt) = (s, mt)" by simp
  show ?case
  proof (cases "st a")
    case None
    with Cons.prems have "a \<noteq> inp" by simp
    with None tl show ?thesis by simp
  next
    case (Some t)
    with Cons.prems have "mt a = Some t" by simp
    with Some tl show ?thesis by simp
  qed
qed

text \<open>
  The clock after the loop: a file of the list that is on disk has the time found there,
  every other path keeps its entry.
\<close>

lemma trackFiles_clock:
  "snd (trackFiles st inp files (s, mt)) f =
     (if f \<in> set files \<and> st f \<noteq> None then st f else mt f)"
  by (induction files arbitrary: s mt) (auto split: option.splits)

text \<open>
  The strategy after the loop is \<open>Full\<close> exactly when it was before, or the entry point is
  missing, or a file of the list is on disk with a time other than its recorded one.
\<close>

lemma trackFiles_stays_Full:
  "fst (trackFiles st inp files (Full, mt)) = Full"
  by (induction files arbitrary: mt) (simp_all split: option.splits)

lemma trackFiles_strategy:
  "fst (trackFiles st inp files (s, mt)) = Full \<longleftrightarrow>
     s = Full \<or> (inp \<in> set files \<and> st inp = None) \<or>
     (\<exists>f \<in> set files. \<exists>t. st f = Some t \<and> mt f \<noteq> Some t)"
proof (induction files arbitrary: s)
  case Nil
  then show ?case by simp
next
  case (Cons a files)
  show ?case
  proof (cases "st a")
    case None
    then show ?thesis using Cons.IH [of "if a = inp then Full else s"]
      by auto
  next
    case (Some t)
    show ?thesis
    proof (cases "mt a = Some t")
      case True
      then show ?thesis using Some Cons.IH [of s] by auto
    next
      case False
      then show ?thesis using Some by (auto simp: trackFiles_stays_Full)
    qed
  qed
qed

section \<open>The stages of a pass\<close>

lemma dependency_files_own:
  "concat (map (dependency_file \<circ> (\<lambda>file. Dependency pl file from)) paths) = paths"
  by (induction paths) simp_all

lemma trackModificationTimes_files:
  "trackModificationTimes w from s =
     (case trackFiles (stat w) (inputFile_of from)
             (checked_files from (messages s) (fullRebuildPaths (ctx s)))
             (Incremental, mtimes (ctx s)) of
        (strategy, mt) \<Rightarrow>
          (strategy,
           s\<lparr>ctx := (ctx s)\<lparr>mtimes := mt\<rparr>,
             messages := messages s @
               map (\<lambda>file. Dependency ''@tailwindcss/postcss'' file from) (fullRebuildPaths (ctx s)),
             events := events s @ [Decided strategy]\<rparr>))"
  by (simp add: trackModificationTimes_def Let_def checked_files_def dependency_files_own)

lemma OnceExit_entry_run:
  assumes "ensureCompiler w rootCss (dirname_resolve w (inputFile_of from))
             \<lparr>ctx = context, messages = msgs, events = []\<rparr> = (s1, Inr c1)"
    and "trackFiles (stat w) (inputFile_of from)
           (checked_files from (messages s1) (fullRebuildPaths (ctx s1)))
           (Incremental, mtimes (ctx s1)) = (strategy, mt)"
    and "scan w (plugin_base p) (globs w c1) = (candidates, files, gs)"
  shows "OnceExit_entry p w rootCss from msgs context =
     buildAndReplace p w rootCss (dirname_resolve w (inputFile_of from)) strategy c1 candidates
       (s1\<lparr>ctx := (ctx s1)\<lparr>mtimes := mt\<rparr>,
           messages := messages s1 @
             map (\<lambda>file. Dependency ''@tailwindcss/postcss'' file from) (fullRebuildPaths (ctx s1)) @
             map (\<lambda>file. Dependency ''@tailwindcss/postcss'' file from) files @
             map (\<lambda>(b, pattern). DirDependency ''@tailwindcss/postcss'' b pattern from) gs,
           events := events s1 @ [Decided strategy, Scan (plugin_base p) (globs w c1)]\<rparr>)"
  using assms
  by (simp add: OnceExit_entry_def trackModificationTimes_files scanCandidates_def)

lemma ensureCompiler_cases:
  "ensureCompiler w rootCss b \<lparr>ctx = context, messages = msgs, events = []\<rparr> =
     (case compiler context of
        Some c \<Rightarrow> (\<lparr>ctx = context, messages = msgs, events = []\<rparr>, Inr c)
      | None \<Rightarrow>
          (case compile w rootCss b of
             (deps, Inl e) \<Rightarrow>
               (\<lparr>ctx = context\<lparr>fullRebuildPaths := deps\<rparr>, messages = msgs,
                 events = [ClearRequireCache (fullRebuildPaths context), Compile rootCss b]\<rparr>,
                Inl e)
           | (deps, Inr c) \<Rightarrow>
               (\<lparr>ctx = context\<lparr>fullRebuildPaths := deps, compiler := Some c\<rparr>, messages = msgs,
                 events = [ClearRequireCache (fullRebuildPaths context), Compile rootCss b]\<rparr>,
                Inr c)))"
  by (simp add: ensureCompiler_def createCompiler_def split: option.split prod.split sum.split)

lemmas finish_defs = buildAndReplace_def rebuildCompiler_def createCompiler_def buildCss_def
  replaceCss_def Let_def optimizeCss_def

lemma buildAndReplace_mtimes:
  "mtimes (ctx (fst (buildAndReplace p w rootCss b strategy c candidates s))) = mtimes (ctx s)"
  by (simp add: finish_defs split: prod.split sum.split)

lemma buildAndReplace_fullRebuildPaths:
  "fullRebuildPaths (ctx (fst (buildAndReplace p w rootCss b strategy c candidates s))) =
     (if strategy = Full then fst (compile w rootCss b) else fullRebuildPaths (ctx s))"
  by (simp add: finish_defs split: prod.split sum.split)

lemma buildAndReplace_compiler:
  "compiler (ctx s) \<noteq> None \<Longrightarrow>
   compiler (ctx (fst (buildAndReplace p w rootCss b strategy c candidates s))) \<noteq> None"
  by (simp add: finish_defs split: prod.split sum.split)

lemma buildAndReplace_Incremental_events:
  "\<exists>res rest. events (fst (buildAndReplace p w rootCss b Incremental c candidates s)) =
     events s @ Build candidates res # rest \<and> (\<forall>e \<in> set rest. is_Optimize e)"
  by (simp add: finish_defs split: prod.split sum.split)

lemma OnceExit_entry_with_compiler:
  assumes "compiler context = Some c0"
    and "trackFiles (stat w) (inputFile_of from)
           (checked_files from msgs (fullRebuildPaths context)) (Incremental, mtimes context) =
         (strategy, mt)"
    and "scan w (plugin_base p) (globs w c0) = (candidates, files, gs)"
  shows "OnceExit_entry p w rootCss from msgs context =
     buildAndReplace p w rootCss (dirname_resolve w (inputFile_of from)) strategy c0 candidates
       \<lparr>ctx = context\<lparr>mtimes := mt\<rparr>,
        messages = msgs @
          map (\<lambda>file. Dependency ''@tailwindcss/postcss'' file from) (fullRebuildPaths context) @
          map (\<lambda>file. Dependency ''@tailwindcss/postcss'' file from) files @
          map (\<lambda>(b, pattern). DirDependency ''@tailwindcss/postcss'' b pattern from) gs,
        events = [Decided strategy, Scan (plugin_base p) (globs w c0)]\<rparr>"
  using assms
  by (simp add: OnceExit_entry_def ensureCompiler_def trackModificationTimes_files
      scanCandidates_def)

text \<open>
  How a pass can go: it stops in the first creation of the handle, or it reaches the loop
  and the scan and then ends in \<open>buildAndReplace\<close>, which stops in the second creation of the
  handle, stops in the build, or replaces the CSS.
\<close>

lemma OnceExit_entry_cases:
  assumes "OnceExit_entry p w rootCss from msgs context = (s, r)"
  obtains (abort) deps e where
      "compiler context = None"
      "compile w rootCss (dirname_resolve w (inputFile_of from)) = (deps, Inl e)"
      "r = Inl e"
      "s = \<lparr>ctx = context\<lparr>fullRebuildPaths := deps\<rparr>, messages = msgs,
            events = [ClearRequireCache (fullRebuildPaths context),
              Compile rootCss (dirname_resolve w (inputFile_of from))]\<rparr>"
  | (run) c1 context1 pre strategy mt candidates ms where
      "compiler context1 = Some c1"
      "fullRebuildPaths context1 = tracked_paths w rootCss from context"
      "mtimes context1 = mtimes context"
      "css context1 = css context"
      "optimizedCss context1 = optimizedCss context"
      "compiler context = None \<Longrightarrow>
         snd (compile w rootCss (dirname_resolve w (inputFile_of from))) = Inr c1"
      "compiler context \<noteq> None \<Longrightarrow> compiler context = Some c1 \<and> pre = []"
      "\<forall>e \<in> set pre. (\<exists>ps. e = ClearRequireCache ps) \<or> (\<exists>x b. e = Compile x b)"
      "trackFiles (stat w) (inputFile_of from)
         (checked_files from msgs (tracked_paths w rootCss from context))
         (Incremental, mtimes context) = (strategy, mt)"
      "candidates = fst (scan w (plugin_base p) (globs w c1))"
      "buildAndReplace p w rootCss (dirname_resolve w (inputFile_of from)) strategy c1 candidates
         \<lparr>ctx = context1\<lparr>mtimes := mt\<rparr>, messages = ms,
          events = pre @ [Decided strategy, Scan (plugin_base p) (globs w c1)]\<rparr> = (s, r)"
      "ms = msgs @
         map (\<lambda>file. Dependency ''@tailwindcss/postcss'' file from)
           (tracked_paths w rootCss from context) @
         map (\<lambda>file. Dependency ''@tailwindcss/postcss'' file from)
           (fst (snd (scan w (plugin_base p) (globs w c1)))) @
         map (\<lambda>(b, pattern). DirDependency ''@tailwindcss/postcss'' b pattern from)
           (snd (snd (scan w (plugin_base p) (globs w c1))))"
      "compiler context = None \<Longrightarrow>
         pre = [ClearRequireCache (fullRebuildPaths context),
           Compile rootCss (dirname_resolve w (inputFile_of from))]"
proof -
  let ?b = "dirname_resolve w (inputFile_of from)"
  let ?s0 = "\<lparr>ctx = context, messages = msgs, events = []\<rparr>"
  obtain s1 x where ec: "ensureCompiler w rootCss ?b ?s0 = (s1, x)"
    by (cases "ensureCompiler w rootCss ?b ?s0") auto
  show thesis
  proof (cases x)
    case (Inl e)
    with ec have "compiler context = None"
      by (auto simp: ensureCompiler_cases split: option.splits)
    moreover obtain deps where "compile w rootCss ?b = (deps, Inl e)"
      and "s1 = \<lparr>ctx = context\<lparr>fullRebuildPaths := deps\<rparr>, messages = msgs,
            events = [ClearRequireCache (fullRebuildPaths context), Compile rootCss ?b]\<rparr>"
      using ec Inl by (auto simp: ensureCompiler_cases split: option.splits prod.splits sum.splits)
    moreover have "s = s1" "r = Inl e"
      using assms ec Inl by (simp_all add: OnceExit_entry_def)
    ultimately show thesis by (auto intro: abort)
  next
    case (Inr c1)
    obtain strategy mt where tr:
      "trackFiles (stat w) (inputFile_of from)
         (checked_files from (messages s1) (fullRebuildPaths (ctx s1)))
         (Incremental, mtimes (ctx s1)) = (strategy, mt)"
      by (cases "trackFiles (stat w) (inputFile_of from)
         (checked_files from (messages s1) (fullRebuildPaths (ctx s1)))
         (Incremental, mtimes (ctx s1))") auto
    obtain candidates files gs where sc: "scan w (plugin_base p) (globs w c1) = (candidates, files, gs)"
      by (cases "scan w (plugin_base p) (globs w c1)") auto
    note run' = OnceExit_entry_run [OF ec [unfolded Inr] tr sc]
    have facts: "compiler (ctx s1) = Some c1 \<and>
        fullRebuildPaths (ctx s1) = tracked_paths w rootCss from context \<and>
        mtimes (ctx s1) = mtimes context \<and> css (ctx s1) = css context \<and>
        optimizedCss (ctx s1) = optimizedCss context \<and> messages s1 = msgs \<and>
        (compiler context = None \<longrightarrow> snd (compile w rootCss ?b) = Inr c1) \<and>
        (compiler context \<noteq> None \<longrightarrow> compiler context = Some c1 \<and> events s1 = []) \<and>
        (compiler context = None \<longrightarrow>
           events s1 = [ClearRequireCache (fullRebuildPaths context), Compile rootCss ?b]) \<and>
        (\<forall>e \<in> set (events s1). (\<exists>ps. e = ClearRequireCache ps) \<or> (\<exists>x b. e = Compile x b))"
      using ec Inr
      by (auto simp: ensureCompiler_cases tracked_paths_def
          split: option.splits prod.splits sum.splits)
    show thesis
    proof (rule run [of "ctx s1" c1 "events s1" strategy mt candidates])
      show "buildAndReplace p w rootCss ?b strategy c1 candidates
         \<lparr>ctx = (ctx s1)\<lparr>mtimes := mt\<rparr>,
          messages = messages s1 @
             map (\<lambda>file. Dependency ''@tailwindcss/postcss'' file from) (fullRebuildPaths (ctx s1)) @
             map (\<lambda>file. Dependency ''@tailwindcss/postcss'' file from) files @
             map (\<lambda>(b, pattern). DirDependency ''@tailwindcss/postcss'' b pattern from) gs,
          events = events s1 @ [Decided strategy, Scan (plugin_base p) (globs w c1)]\<rparr> = (s, r)"
        using assms run' by (cases s1) simp
    qed (use facts tr sc in simp_all)
  qed
qed

lemma rebuildCompiler_cases:
  assumes "rebuildCompiler w rootCss b strategy c s3 = (s4, x)"
  shows "css (ctx s4) = css (ctx s3) \<and> optimizedCss (ctx s4) = optimizedCss (ctx s3) \<and>
     mtimes (ctx s4) = mtimes (ctx s3) \<and>
     (strategy = Incremental \<longrightarrow> s4 = s3 \<and> x = Inr c) \<and>
     (strategy = Full \<longrightarrow> x = snd (compile w rootCss b) \<and>
        events s4 = events s3 @ [ClearRequireCache (fullRebuildPaths (ctx s3)), Compile rootCss b])"
proof (cases strategy)
  case Full
  then show ?thesis
    using assms [symmetric]
    by (cases "compile w rootCss b"; cases "snd (compile w rootCss b)")
      (simp_all add: rebuildCompiler_def createCompiler_def)
next
  case Incremental
  then show ?thesis
    using assms [symmetric] by (simp add: rebuildCompiler_def)
qed

lemma buildAndReplace_cases:
  assumes "buildAndReplace p w rootCss b strategy c candidates s3 = (s, r)"
  obtains (compile_failed) e where
      "strategy = Full" "snd (compile w rootCss b) = Inl e" "r = Inl e"
      "css (ctx s) = css (ctx s3)" "optimizedCss (ctx s) = optimizedCss (ctx s3)"
      "events s = events s3 @ [ClearRequireCache (fullRebuildPaths (ctx s3)), Compile rootCss b]"
  | (build_failed) pre e where
      "r = Inl e"
      "css (ctx s) = css (ctx s3)" "optimizedCss (ctx s) = optimizedCss (ctx s3)"
      "events s = events s3 @ pre @ [Build candidates (Inl e)]"
      "pre = (if strategy = Full
              then [ClearRequireCache (fullRebuildPaths (ctx s3)), Compile rootCss b] else [])"
  | (built) pre newCss where
      "r = Inr (if truthy (plugin_optimize p) then optimizedCss (ctx s) else newCss)"
      "css (ctx s) = newCss"
      "optimizedCss (ctx s) =
         (if newCss \<noteq> css (ctx s3) \<and> truthy (plugin_optimize p)
          then optimizeCss w newCss (minify_of (plugin_optimize p))
          else optimizedCss (ctx s3))"
      "events s = events s3 @ pre @ Build candidates (Inr newCss) #
         (if newCss \<noteq> css (ctx s3) \<and> truthy (plugin_optimize p)
          then [Optimize newCss (minify_of (plugin_optimize p))] else [])"
      "pre = (if strategy = Full
              then [ClearRequireCache (fullRebuildPaths (ctx s3)), Compile rootCss b] else [])"
proof -
  obtain s4 x where rc: "rebuildCompiler w rootCss b strategy c s3 = (s4, x)"
    by (cases "rebuildCompiler w rootCss b strategy c s3") auto
  note facts = rebuildCompiler_cases [OF rc]
  show thesis
  proof (cases x)
    case (Inl e)
    have sr: "s = s4" "r = Inl e"
      using assms rc Inl by (auto simp: buildAndReplace_def)
    have full: "strategy = Full"
      using facts Inl by (cases strategy) auto
    show thesis
      by (rule compile_failed [of e]) (use facts Inl sr full in auto)
  next
    case (Inr c4)
    obtain c5 br where bu: "build w c4 candidates = (c5, br)"
      by (cases "build w c4 candidates") auto
    let ?s5 = "s4\<lparr>ctx := (ctx s4)\<lparr>compiler := Some c5\<rparr>,
      events := events s4 @ [Build candidates br]\<rparr>"
    have pre: "events s4 = events s3 @ (if strategy = Full
        then [ClearRequireCache (fullRebuildPaths (ctx s3)), Compile rootCss b] else [])"
      using facts by (cases strategy) auto
    show thesis
    proof (cases br)
      case (Inl e)
      have sr: "s = ?s5" "r = Inl e"
        using assms rc Inr bu Inl by (auto simp: buildAndReplace_def buildCss_def)
      show thesis
        by (rule build_failed [of e]) (use facts sr pre Inl in auto)
    next
      case (Inr newCss)
      have sr: "(s, r) = (case replaceCss p w newCss ?s5 of (s6, out) \<Rightarrow> (s6, Inr out))"
        using assms rc \<open>x = Inr c4\<close> bu Inr by (auto simp: buildAndReplace_def buildCss_def)
      show thesis
      proof (cases "newCss \<noteq> css (ctx s3) \<and> truthy (plugin_optimize p)")
        case True
        then have "s = ?s5\<lparr>ctx := (ctx ?s5)\<lparr>optimizedCss :=
              optimizeCss w newCss (minify_of (plugin_optimize p)), css := newCss\<rparr>,
            events := events ?s5 @ [Optimize newCss (minify_of (plugin_optimize p))]\<rparr>"
          and "r = Inr (optimizeCss w newCss (minify_of (plugin_optimize p)))"
          using sr facts by (auto simp: replaceCss_def Let_def)
        then show thesis
          using True facts pre Inr by (intro built [of newCss]) auto
      next
        case False
        then have "s = ?s5\<lparr>ctx := (ctx ?s5)\<lparr>css := newCss\<rparr>\<rparr>"
          and "r = Inr (if truthy (plugin_optimize p) then optimizedCss (ctx s4) else newCss)"
          using sr facts by (auto simp: replaceCss_def Let_def)
        then show thesis
          using False facts pre Inr by (intro built [of newCss]) auto
      qed
    qed
  qed
qed

lemma buildAndReplace_build_call:
  assumes "buildAndReplace p w rootCss b strategy c1 candidates s3 = (s, r)"
    and "strategy = Incremental \<or> snd (compile w rootCss b) = Inr c"
  shows "\<exists>c4 mid rest.
     (strategy = Incremental \<and> c4 = c1 \<and> mid = [] \<or>
      strategy = Full \<and> snd (compile w rootCss b) = Inr c4 \<and>
        mid = [ClearRequireCache (fullRebuildPaths (ctx s3)), Compile rootCss b]) \<and>
     events s = events s3 @ mid @ Build candidates (snd (build w c4 candidates)) # rest \<and>
     list_all is_Optimize rest \<and>
     messages s = messages s3 \<and>
     compiler (ctx s) = Some (fst (build w c4 candidates)) \<and>
     (case snd (build w c4 candidates) of
        Inl e \<Rightarrow> r = Inl e
      | Inr newCss \<Rightarrow>
          css (ctx s) = newCss \<and>
          r = Inr (if truthy (plugin_optimize p) then optimizedCss (ctx s) else newCss))"
proof -
  obtain s4 x where rc: "rebuildCompiler w rootCss b strategy c1 s3 = (s4, x)"
    by (cases "rebuildCompiler w rootCss b strategy c1 s3") auto
  note facts = rebuildCompiler_cases [OF rc]
  have ms: "messages s4 = messages s3"
    using rc [symmetric]
    by (cases "compile w rootCss b"; cases "snd (compile w rootCss b)")
      (auto simp: rebuildCompiler_def createCompiler_def split: if_splits)
  obtain c4 where x: "x = Inr c4"
    and c4: "strategy = Incremental \<and> c4 = c1 \<or>
      strategy = Full \<and> snd (compile w rootCss b) = Inr c4"
    using facts assms(2) by (cases strategy) auto
  define mid where "mid = (if strategy = Full
      then [ClearRequireCache (fullRebuildPaths (ctx s3)), Compile rootCss b] else [])"
  have ev4: "events s4 = events s3 @ mid"
    using facts by (cases strategy) (auto simp: mid_def)
  obtain c5 br where bu: "build w c4 candidates = (c5, br)"
    by (cases "build w c4 candidates") auto
  let ?s5 = "s4\<lparr>ctx := (ctx s4)\<lparr>compiler := Some c5\<rparr>,
      events := events s4 @ [Build candidates br]\<rparr>"
  have choice: "strategy = Incremental \<and> c4 = c1 \<and> mid = [] \<or>
      strategy = Full \<and> snd (compile w rootCss b) = Inr c4 \<and>
        mid = [ClearRequireCache (fullRebuildPaths (ctx s3)), Compile rootCss b]"
    using c4 by (auto simp: mid_def)
  have "\<exists>rest. events s = events s3 @ mid @ Build candidates br # rest \<and>
     list_all is_Optimize rest \<and> messages s = messages s3 \<and> compiler (ctx s) = Some c5 \<and>
     (case br of
        Inl e \<Rightarrow> r = Inl e
      | Inr newCss \<Rightarrow>
          css (ctx s) = newCss \<and>
          r = Inr (if truthy (plugin_optimize p) then optimizedCss (ctx s) else newCss))"
  proof (cases br)
    case (Inl e)
    have "s = ?s5" "r = Inl e"
      using assms(1) rc x bu Inl by (auto simp: buildAndReplace_def buildCss_def)
    then show ?thesis
      using Inl ev4 ms by simp
  next
    case (Inr newCss)
    have sr: "(s, r) = (case replaceCss p w newCss ?s5 of (s6, out) \<Rightarrow> (s6, Inr out))"
      using assms(1) rc x bu Inr by (auto simp: buildAndReplace_def buildCss_def)
    show ?thesis
    proof (cases "newCss \<noteq> css (ctx s4) \<and> truthy (plugin_optimize p)")
      case True
      then have "s = ?s5\<lparr>ctx := (ctx ?s5)\<lparr>optimizedCss :=
              optimizeCss w newCss (minify_of (plugin_optimize p)), css := newCss\<rparr>,
            events := events ?s5 @ [Optimize newCss (minify_of (plugin_optimize p))]\<rparr>"
        and "r = Inr (optimizeCss w newCss (minify_of (plugin_optimize p)))"
        using sr by (auto simp: replaceCss_def Let_def)
      then show ?thesis
        using True Inr ev4 ms by simp
    next
      case False
      then have "s = ?s5\<lparr>ctx := (ctx ?s5)\<lparr>css := newCss\<rparr>\<rparr>"
        and "r = Inr (if truthy (plugin_optimize p) then optimizedCss (ctx s4) else newCss)"
        using sr by (auto simp: replaceCss_def Let_def)
      then show ?thesis
        using False Inr ev4 ms by simp
    qed
  qed
  then obtain rest where
    r1: "events s = events s3 @ mid @ Build candidates br # rest"
    and r2: "list_all is_Optimize rest"
    and r3: "messages s = messages s3"
    and r4: "compiler (ctx s) = Some c5"
    and r5: "case br of
        Inl e \<Rightarrow> r = Inl e
      | Inr newCss \<Rightarrow>
          css (ctx s) = newCss \<and>
          r = Inr (if truthy (plugin_optimize p) then optimizedCss (ctx s) else newCss)"
    by (elim exE conjE)
  have br: "snd (build w c4 candidates) = br" and c5: "fst (build w c4 candidates) = c5"
    using bu by simp_all
  have "(strategy = Incremental \<and> c4 = c1 \<and> mid = [] \<or>
      strategy = Full \<and> snd (compile w rootCss b) = Inr c4 \<and>
        mid = [ClearRequireCache (fullRebuildPaths (ctx s3)), Compile rootCss b]) \<and>
     events s = events s3 @ mid @ Build candidates (snd (build w c4 candidates)) # rest \<and>
     list_all is_Optimize rest \<and>
     messages s = messages s3 \<and>
     compiler (ctx s) = Some (fst (build w c4 candidates)) \<and>
     (case snd (build w c4 candidates) of
        Inl e \<Rightarrow> r = Inl e
      | Inr newCss \<Rightarrow>
          css (ctx s) = newCss \<and>
          r = Inr (if truthy (plugin_optimize p) then optimizedCss (ctx s) else newCss))"
    unfolding br c5 by (intro conjI) (rule choice r1 r2 r3 r4 r5)+
  then show ?thesis
    by (intro exI)
qed

lemma pass_cases:
  assumes "OnceExit_entry p w rootCss from msgs context = (s, r)"
  obtains (abort) e where
      "compiler context = None"
      "snd (compile w rootCss (dirname_resolve w (inputFile_of from))) = Inl e"
      "r = Inl e"
      "mtimes (ctx s) = mtimes context" "css (ctx s) = css context"
      "optimizedCss (ctx s) = optimizedCss context"
      "events s = [ClearRequireCache (fullRebuildPaths context),
         Compile rootCss (dirname_resolve w (inputFile_of from))]"
  | (run) c1 pre strategy mt candidates post where
      "compiler context = None \<Longrightarrow>
         snd (compile w rootCss (dirname_resolve w (inputFile_of from))) = Inr c1"
      "compiler context \<noteq> None \<Longrightarrow> compiler context = Some c1 \<and> pre = []"
      "\<forall>e \<in> set pre. (\<exists>ps. e = ClearRequireCache ps) \<or> (\<exists>x b. e = Compile x b)"
      "trackFiles (stat w) (inputFile_of from)
         (checked_files from msgs (tracked_paths w rootCss from context))
         (Incremental, mtimes context) = (strategy, mt)"
      "mtimes (ctx s) = mt"
      "candidates = fst (scan w (plugin_base p) (globs w c1))"
      "events s = pre @ [Decided strategy, Scan (plugin_base p) (globs w c1)] @ post"
      "(\<exists>e. strategy = Full \<and> r = Inl e \<and>
            snd (compile w rootCss (dirname_resolve w (inputFile_of from))) = Inl e \<and>
            css (ctx s) = css context \<and> optimizedCss (ctx s) = optimizedCss context \<and>
            post = [ClearRequireCache (tracked_paths w rootCss from context),
              Compile rootCss (dirname_resolve w (inputFile_of from))]) \<or>
       (\<exists>e. r = Inl e \<and>
            css (ctx s) = css context \<and> optimizedCss (ctx s) = optimizedCss context \<and>
            post = (if strategy = Full
              then [ClearRequireCache (tracked_paths w rootCss from context),
                Compile rootCss (dirname_resolve w (inputFile_of from))] else []) @
              [Build candidates (Inl e)]) \<or>
       (\<exists>newCss. r = Inr (if truthy (plugin_optimize p) then optimizedCss (ctx s) else newCss) \<and>
            css (ctx s) = newCss \<and>
            optimizedCss (ctx s) =
              (if newCss \<noteq> css context \<and> truthy (plugin_optimize p)
               then optimizeCss w newCss (minify_of (plugin_optimize p))
               else optimizedCss context) \<and>
            post = (if strategy = Full
              then [ClearRequireCache (tracked_paths w rootCss from context),
                Compile rootCss (dirname_resolve w (inputFile_of from))] else []) @
              Build candidates (Inr newCss) #
              (if newCss \<noteq> css context \<and> truthy (plugin_optimize p)
               then [Optimize newCss (minify_of (plugin_optimize p))] else []))"
  using assms
proof (cases rule: OnceExit_entry_cases)
  case (abort deps e)
  show ?thesis
    by (rule that(1) [of e]) (use abort in simp_all)
next
  case (run c1 context1 pre strategy mt candidates ms)
  let ?b = "dirname_resolve w (inputFile_of from)"
  let ?s3 = "\<lparr>ctx = context1\<lparr>mtimes := mt\<rparr>, messages = ms,
          events = pre @ [Decided strategy, Scan (plugin_base p) (globs w c1)]\<rparr>"
  have mt: "mtimes (ctx s) = mt"
    using buildAndReplace_mtimes [of p w rootCss ?b strategy c1 candidates ?s3] run(11) by simp
  from run(11) show ?thesis
  proof (cases rule: buildAndReplace_cases)
    case (compile_failed e)
    show ?thesis
      by (rule that(2) [of c1 pre strategy mt candidates
            "[ClearRequireCache (tracked_paths w rootCss from context), Compile rootCss ?b]"])
        (use run compile_failed mt in simp_all)
  next
    case (build_failed pre2 e)
    show ?thesis
      by (rule that(2) [of c1 pre strategy mt candidates "pre2 @ [Build candidates (Inl e)]"])
        (use run build_failed mt in simp_all)
  next
    case (built pre2 newCss)
    show ?thesis
      by (rule that(2) [of c1 pre strategy mt candidates "pre2 @ Build candidates (Inr newCss) #
              (if newCss \<noteq> css context \<and> truthy (plugin_optimize p)
               then [Optimize newCss (minify_of (plugin_optimize p))] else [])"])
        (use run built mt in simp_all)
  qed
qed

text \<open>
  The strategy in the log is the one the loop computed, the clock changes only at files the
  loop found on disk, and a pass that returns has called the optimizer once or not at all.
\<close>

lemma decided_is_tracked:
  assumes "OnceExit_entry p w rootCss from msgs context = (s, r)"
    and "Decided strategy \<in> set (events s)"
  shows "strategy = fst (trackFiles (stat w) (inputFile_of from)
     (checked_files from msgs (tracked_paths w rootCss from context))
     (Incremental, mtimes context))"
  using assms(1)
proof (cases rule: pass_cases)
  case (abort e)
  then show ?thesis using assms(2) by simp
next
  case (run c1 pre st mt candidates post)
  have "Decided strategy \<notin> set pre"
    using run(3) by auto
  moreover have "Decided strategy \<notin> set post"
    using run(8) by (auto split: if_splits)
  ultimately have "strategy = st"
    using assms(2) run(7) by auto
  then show ?thesis using run(4) by simp
qed

lemma pass_clock:
  assumes "OnceExit_entry p w rootCss from msgs context = (s, r)"
  shows "mtimes (ctx s) f = mtimes context f \<or>
     (f \<in> set (checked_files from msgs (tracked_paths w rootCss from context)) \<and>
      stat w f \<noteq> None \<and> mtimes (ctx s) f = stat w f)"
  using assms
proof (cases rule: pass_cases)
  case (abort e)
  then show ?thesis by simp
next
  case (run c1 pre st mt candidates post)
  show ?thesis
    using trackFiles_clock [of "stat w" "inputFile_of from"
        "checked_files from msgs (tracked_paths w rootCss from context)" Incremental
        "mtimes context" f] run(4,5)
    by (auto split: if_splits)
qed

lemma successful_pass:
  assumes "OnceExit_entry p w rootCss from msgs context = (s, Inr out)"
  shows "out = (if truthy (plugin_optimize p) then optimizedCss (ctx s) else css (ctx s)) \<and>
     optimizedCss (ctx s) =
       (if css (ctx s) \<noteq> css context \<and> truthy (plugin_optimize p)
        then optimizeCss w (css (ctx s)) (minify_of (plugin_optimize p))
        else optimizedCss context) \<and>
     optimize_calls s = (if css (ctx s) \<noteq> css context \<and> truthy (plugin_optimize p) then 1 else 0)"
  using assms
proof (cases rule: pass_cases)
  case (abort e)
  then show ?thesis by simp
next
  case (run c1 pre st mt cands post)
  have pre: "filter is_Optimize pre = []"
    using run(3) by (auto simp: filter_empty_conv)
  from run(8) obtain newCss where
    r: "out = (if truthy (plugin_optimize p) then optimizedCss (ctx s) else newCss)"
    and c: "css (ctx s) = newCss"
    and oc: "optimizedCss (ctx s) =
              (if newCss \<noteq> css context \<and> truthy (plugin_optimize p)
               then optimizeCss w newCss (minify_of (plugin_optimize p))
               else optimizedCss context)"
    and post: "post = (if st = Full
              then [ClearRequireCache (tracked_paths w rootCss from context),
                Compile rootCss (dirname_resolve w (inputFile_of from))] else []) @
              Build cands (Inr newCss) #
              (if newCss \<noteq> css context \<and> truthy (plugin_optimize p)
               then [Optimize newCss (minify_of (plugin_optimize p))] else [])"
    by auto
  have "optimize_calls s = (if newCss \<noteq> css context \<and> truthy (plugin_optimize p) then 1 else 0)"
    by (simp add: optimize_calls_def run(7) pre post)
  then show ?thesis using r c oc by simp
qed

section \<open>The first pass and the passes after it\<close>

lemma first_pass_settles:
  assumes "compiler context = None"
    and "compile w rootCss (dirname_resolve w (inputFile_of from)) = (deps, Inr c)"
    and "OnceExit_entry p w rootCss from msgs context = (s, r)"
  shows "compiler (ctx s) \<noteq> None \<and> fullRebuildPaths (ctx s) = deps \<and>
     (\<forall>f \<in> set (checked_files from msgs deps). \<forall>t. stat w f = Some t \<longrightarrow> mtimes (ctx s) f = Some t)"
proof -
  let ?b = "dirname_resolve w (inputFile_of from)"
  let ?s1 = "\<lparr>ctx = context\<lparr>fullRebuildPaths := deps, compiler := Some c\<rparr>, messages = msgs,
     events = [ClearRequireCache (fullRebuildPaths context), Compile rootCss ?b]\<rparr>"
  let ?files = "checked_files from msgs deps"
  have ec: "ensureCompiler w rootCss ?b \<lparr>ctx = context, messages = msgs, events = []\<rparr> = (?s1, Inr c)"
    using assms(1,2) by (simp add: ensureCompiler_cases)
  obtain strategy mt where tr:
    "trackFiles (stat w) (inputFile_of from) ?files (Incremental, mtimes context) = (strategy, mt)"
    by (cases "trackFiles (stat w) (inputFile_of from) ?files (Incremental, mtimes context)") auto
  obtain candidates files gs where sc: "scan w (plugin_base p) (globs w c) = (candidates, files, gs)"
    by (cases "scan w (plugin_base p) (globs w c)") auto
  have mt: "mt f = (if f \<in> set ?files \<and> stat w f \<noteq> None then stat w f else mtimes context f)" for f
    using trackFiles_clock [of "stat w" "inputFile_of from" ?files Incremental "mtimes context" f] tr
    by simp
  have run: "OnceExit_entry p w rootCss from msgs context =
      buildAndReplace p w rootCss ?b strategy c candidates
       (?s1\<lparr>ctx := (ctx ?s1)\<lparr>mtimes := mt\<rparr>,
           messages := messages ?s1 @
             map (\<lambda>file. Dependency ''@tailwindcss/postcss'' file from) (fullRebuildPaths (ctx ?s1)) @
             map (\<lambda>file. Dependency ''@tailwindcss/postcss'' file from) files @
             map (\<lambda>(b, pattern). DirDependency ''@tailwindcss/postcss'' b pattern from) gs,
           events := events ?s1 @ [Decided strategy, Scan (plugin_base p) (globs w c)]\<rparr>)"
    by (rule OnceExit_entry_run [OF ec _ sc]) (simp add: tr)
  have s: "s = fst (OnceExit_entry p w rootCss from msgs context)"
    using assms(3) by simp
  have "compiler (ctx s) \<noteq> None"
    unfolding s run by (rule buildAndReplace_compiler) simp
  moreover have "fullRebuildPaths (ctx s) = deps"
    unfolding s run by (simp add: buildAndReplace_fullRebuildPaths assms(2))
  moreover have "mtimes (ctx s) = mt"
    unfolding s run by (simp add: buildAndReplace_mtimes)
  ultimately show ?thesis by (simp add: mt)
qed

lemma steady_pass_incremental:
  assumes "compiler context = Some c"
    and "\<forall>f \<in> set (checked_files from msgs (fullRebuildPaths context)).
           (stat w f = None \<longrightarrow> f \<noteq> inputFile_of from) \<and>
           (\<forall>t. stat w f = Some t \<longrightarrow> mtimes context f = Some t)"
    and "OnceExit_entry p w rootCss from msgs context = (s, r)"
  shows "mtimes (ctx s) = mtimes context \<and> fullRebuildPaths (ctx s) = fullRebuildPaths context \<and>
     compiler (ctx s) \<noteq> None \<and>
     (\<exists>candidates res rest.
        events s = Decided Incremental # Scan (plugin_base p) (globs w c) #
          Build candidates res # rest \<and> (\<forall>e \<in> set rest. is_Optimize e))"
proof -
  let ?b = "dirname_resolve w (inputFile_of from)"
  let ?s1 = "\<lparr>ctx = context, messages = msgs, events = []\<rparr>"
  have ec: "ensureCompiler w rootCss ?b ?s1 = (?s1, Inr c)"
    using assms(1) by (simp add: ensureCompiler_cases)
  have tr: "trackFiles (stat w) (inputFile_of from)
      (checked_files from msgs (fullRebuildPaths context)) (Incremental, mtimes context) =
      (Incremental, mtimes context)"
    using assms(2) by (rule trackFiles_unchanged)
  obtain candidates files gs where sc: "scan w (plugin_base p) (globs w c) = (candidates, files, gs)"
    by (cases "scan w (plugin_base p) (globs w c)") auto
  have run: "OnceExit_entry p w rootCss from msgs context =
      buildAndReplace p w rootCss ?b Incremental c candidates
       (?s1\<lparr>ctx := (ctx ?s1)\<lparr>mtimes := mtimes context\<rparr>,
           messages := messages ?s1 @
             map (\<lambda>file. Dependency ''@tailwindcss/postcss'' file from) (fullRebuildPaths (ctx ?s1)) @
             map (\<lambda>file. Dependency ''@tailwindcss/postcss'' file from) files @
             map (\<lambda>(b, pattern). DirDependency ''@tailwindcss/postcss'' b pattern from) gs,
           events := events ?s1 @ [Decided Incremental, Scan (plugin_base p) (globs w c)]\<rparr>)"
    by (rule OnceExit_entry_run [OF ec _ sc]) (simp add: tr)
  have s: "s = fst (OnceExit_entry p w rootCss from msgs context)"
    using assms(3) by simp
  have "compiler (ctx s) \<noteq> None"
    unfolding s run by (rule buildAndReplace_compiler) (simp add: assms(1))
  moreover have "fullRebuildPaths (ctx s) = fullRebuildPaths context"
    unfolding s run by (simp add: buildAndReplace_fullRebuildPaths)
  moreover have "mtimes (ctx s) = mtimes context"
    unfolding s run by (simp add: buildAndReplace_mtimes)
  moreover have "\<exists>candidates res rest.
        events s = Decided Incremental # Scan (plugin_base p) (globs w c) #
          Build candidates res # rest \<and> (\<forall>e \<in> set rest. is_Optimize e)"
    unfolding s run
    using buildAndReplace_Incremental_events [of p w rootCss ?b c candidates
      "\<lparr>ctx = context, messages = msgs @
             map (\<lambda>file. Dependency ''@tailwindcss/postcss'' file from) (fullRebuildPaths context) @
             map (\<lambda>file. Dependency ''@tailwindcss/postcss'' file from) files @
             map (\<lambda>(b, pattern). DirDependency ''@tailwindcss/postcss'' b pattern from) gs,
           events = [Decided Incremental, Scan (plugin_base p) (globs w c)]\<rparr>"]
    by auto
  ultimately show ?thesis by simp
qed

lemma incremental_events:
  assumes "events s = Decided Incremental # Scan b g # Build candidates res # rest"
    and "\<forall>e \<in> set rest. is_Optimize e"
  shows "Decided Incremental \<in> set (events s) \<and> Decided Full \<notin> set (events s) \<and>
     (\<forall>rootCss bp. Compile rootCss bp \<notin> set (events s))"
  using assms by auto

lemma steady_sequence:
  assumes "compiler entry \<noteq> None"
    and "set (fullRebuildPaths entry) \<subseteq> T"
    and "\<forall>f \<in> T. \<forall>t. st f = Some t \<longrightarrow> mtimes entry f = Some t"
    and "inputFile_of from \<in> T"
    and "st (inputFile_of from) \<noteq> None"
    and "\<forall>i \<in> set rest. set (concat (map dependency_file (inv_messages i))) \<subseteq> T"
    and "\<forall>i \<in> set rest. \<forall>f \<in> T. stat (inv_world i) f = st f"
  shows "\<forall>x \<in> set (OnceExit_sequence p from entry rest).
     Decided Incremental \<in> set (events (fst x)) \<and> Decided Full \<notin> set (events (fst x)) \<and>
     (\<forall>rootCss bp. Compile rootCss bp \<notin> set (events (fst x)))"
  using assms
proof (induction rest arbitrary: entry)
  case Nil
  then show ?case by simp
next
  case (Cons i rest)
  obtain c where c: "compiler entry = Some c"
    using Cons.prems(1) by auto
  obtain s r where pass:
    "OnceExit_entry p (inv_world i) (inv_root i) from (inv_messages i) entry = (s, r)"
    by (cases "OnceExit_entry p (inv_world i) (inv_root i) from (inv_messages i) entry") auto
  have files: "set (checked_files from (inv_messages i) (fullRebuildPaths entry)) \<subseteq> T"
    using Cons.prems(2,4,6) by (auto simp: checked_files_def)
  have same: "\<forall>f \<in> T. stat (inv_world i) f = st f"
    using Cons.prems(7) by simp
  have unchanged: "\<forall>f \<in> set (checked_files from (inv_messages i) (fullRebuildPaths entry)).
      (stat (inv_world i) f = None \<longrightarrow> f \<noteq> inputFile_of from) \<and>
      (\<forall>t. stat (inv_world i) f = Some t \<longrightarrow> mtimes entry f = Some t)"
  proof
    fix f
    assume "f \<in> set (checked_files from (inv_messages i) (fullRebuildPaths entry))"
    then have fT: "f \<in> T" using files by auto
    then have eq: "stat (inv_world i) f = st f" using same by simp
    show "(stat (inv_world i) f = None \<longrightarrow> f \<noteq> inputFile_of from) \<and>
      (\<forall>t. stat (inv_world i) f = Some t \<longrightarrow> mtimes entry f = Some t)"
      using eq fT Cons.prems(3,5) by auto
  qed
  note steady = steady_pass_incremental [OF c unchanged pass]
  from steady obtain candidates res rest' where
    ev: "events s = Decided Incremental # Scan (plugin_base p) (globs (inv_world i) c) #
          Build candidates res # rest'" and opt: "\<forall>e \<in> set rest'. is_Optimize e"
    by blast
  have here: "Decided Incremental \<in> set (events s) \<and> Decided Full \<notin> set (events s) \<and>
     (\<forall>rootCss bp. Compile rootCss bp \<notin> set (events s))"
    by (rule incremental_events [OF ev opt])
  have later: "\<forall>x \<in> set (OnceExit_sequence p from (ctx s) rest).
     Decided Incremental \<in> set (events (fst x)) \<and> Decided Full \<notin> set (events (fst x)) \<and>
     (\<forall>rootCss bp. Compile rootCss bp \<notin> set (events (fst x)))"
  proof (rule Cons.IH)
    show "compiler (ctx s) \<noteq> None" using steady by simp
    show "set (fullRebuildPaths (ctx s)) \<subseteq> T" using steady Cons.prems(2) by simp
    show "\<forall>f \<in> T. \<forall>t. st f = Some t \<longrightarrow> mtimes (ctx s) f = Some t"
      using steady Cons.prems(3) by simp
    show "inputFile_of from \<in> T" by (rule Cons.prems(4))
    show "st (inputFile_of from) \<noteq> None" by (rule Cons.prems(5))
    show "\<forall>i \<in> set rest. set (concat (map dependency_file (inv_messages i))) \<subseteq> T"
      using Cons.prems(6) by simp
    show "\<forall>i \<in> set rest. \<forall>f \<in> T. stat (inv_world i) f = st f"
      using Cons.prems(7) by simp
  qed
  show ?case
    using pass here later by simp
qed

section \<open>The concrete runs\<close>

lemmas example_defs = example_plugin_def example_stat_def example_compile_def example_build_def
  failing_build_def example_world_def example_invocation_def

lemmas run_defs = OnceExit_entry_def ensureCompiler_def createCompiler_def
  trackModificationTimes_def scanCandidates_def buildAndReplace_def rebuildCompiler_def
  buildCss_def replaceCss_def optimizeCss_def inputFile_of_def newContext_def Let_def

lemma example_entry_value:
  "example_entry =
     \<lparr>mtimes = [''b.css'' \<mapsto> 1, ''a.css'' \<mapsto> 1], compiler = Some 1, css = ''flex'',
      optimizedCss = ''min flex'', fullRebuildPaths = [''b.css'', ''gone.js'']\<rparr>"
  by (simp add: example_entry_def example_defs run_defs)

lemma example_passes_value:
  "map (\<lambda>x. (events (fst x), css (ctx (fst x)), snd x)) example_passes =
     [([ClearRequireCache [], Compile ''@import'' ''/app'', Decided Full,
        Scan ''/app'' [(''/app'', ''*.html'')],
        ClearRequireCache [''b.css'', ''gone.js''], Compile ''@import'' ''/app'',
        Build [''flex''] (Inr ''flex''), Optimize ''flex'' True], ''flex'', Inr ''min flex''),
      ([Decided Incremental, Scan ''/app'' [(''/app'', ''*.html'')],
        Build [''flex''] (Inr ''flex'')], ''flex'', Inr ''min flex''),
      ([Decided Incremental, Scan ''/app'' [(''/app'', ''*.html'')],
        Build [''flex''] (Inr ''flex'')], ''flex'', Inr ''min flex'')]"
  by (simp add: example_passes_def example_defs run_defs)

lemma example_passes_nth:
  assumes "k < 3"
  shows "(events (fst (example_passes ! k)), css (ctx (fst (example_passes ! k))),
      snd (example_passes ! k)) =
     [([ClearRequireCache [], Compile ''@import'' ''/app'', Decided Full,
        Scan ''/app'' [(''/app'', ''*.html'')],
        ClearRequireCache [''b.css'', ''gone.js''], Compile ''@import'' ''/app'',
        Build [''flex''] (Inr ''flex''), Optimize ''flex'' True], ''flex'', Inr ''min flex''),
      ([Decided Incremental, Scan ''/app'' [(''/app'', ''*.html'')],
        Build [''flex''] (Inr ''flex'')], ''flex'', Inr ''min flex''),
      ([Decided Incremental, Scan ''/app'' [(''/app'', ''*.html'')],
        Build [''flex''] (Inr ''flex'')], ''flex'', Inr ''min flex'')] ! k"
proof -
  have len: "length example_passes = 3"
    using arg_cong [OF example_passes_value, of length] by simp
  have "map (\<lambda>x. (events (fst x), css (ctx (fst x)), snd x)) example_passes ! k =
      (events (fst (example_passes ! k)), css (ctx (fst (example_passes ! k))),
       snd (example_passes ! k))"
    using assms len by simp
  then show ?thesis
    unfolding example_passes_value by simp
qed

lemma steady_pass_value:
  "events (fst steady_pass) =
     [Decided Incremental, Scan ''/app'' [(''/app'', ''*.html'')], Build [''flex''] (Inr ''flex'')] \<and>
   snd steady_pass = Inr ''min flex'' \<and> css (ctx (fst steady_pass)) = ''flex'' \<and>
   optimizedCss (ctx (fst steady_pass)) = ''min flex''"
  by (simp add: steady_pass_def example_entry_value example_defs run_defs)

lemma touched_pass_value:
  "events (fst touched_pass) =
     [Decided Full, Scan ''/app'' [(''/app'', ''*.html'')],
      ClearRequireCache [''b.css'', ''gone.js''], Compile ''@import'' ''/app'',
      Build [''flex''] (Inr ''flex'')] \<and>
   snd touched_pass = Inr ''min flex'' \<and>
   mtimes (ctx (fst touched_pass)) ''b.css'' = Some 2 \<and>
   compiler (ctx (fst touched_pass)) = Some 1 \<and>
   fullRebuildPaths (ctx (fst touched_pass)) = [''b.css'', ''gone.js'']"
  by (simp add: touched_pass_def example_entry_value example_defs run_defs)

lemma deleted_pass_value:
  "events (fst deleted_pass) =
     [Decided Incremental, Scan ''/app'' [(''/app'', ''*.html'')], Build [''flex''] (Inr ''flex'')] \<and>
   snd deleted_pass = Inr ''min flex'' \<and>
   mtimes (ctx (fst deleted_pass)) ''b.css'' = Some 1 \<and>
   mtimes (ctx (fst deleted_pass)) ''a.css'' = Some 1 \<and>
   compiler (ctx (fst deleted_pass)) = Some 2 \<and>
   fullRebuildPaths (ctx (fst deleted_pass)) = [''b.css'', ''gone.js'']"
  by (simp add: deleted_pass_def example_entry_value example_defs run_defs)

lemma failed_pass_value:
  "events (fst failed_pass) =
     [Decided Incremental, Scan ''/app'' [(''/app'', ''*.html'')],
      Build [''flex''] (Inl (Thrown ''build failed''))] \<and>
   snd failed_pass = Inl (Thrown ''build failed'') \<and> css (ctx (fst failed_pass)) = ''flex'' \<and>
   optimizedCss (ctx (fst failed_pass)) = ''min flex''"
  by (simp add: failed_pass_def example_entry_value example_defs run_defs)

lemma raw_pass_value:
  "events (fst raw_pass) =
     [Decided Incremental, Scan ''/app'' [(''/app'', ''*.html'')], Build [''flex''] (Inr ''flex'')] \<and>
   snd raw_pass = Inr ''flex'' \<and> optimizedCss (ctx (fst raw_pass)) = ''min flex''"
  by (simp add: raw_pass_def raw_plugin_def example_entry_value example_defs run_defs)

section \<open>The rebuild strategy\<close>

text \<open>
  C1. A sequence of passes on one input starts on a new cache entry. The first pass
  creates the handle, and the entry point is on disk. In the later passes every file
  that the first pass checked has the result of \<^verbatim>\<open>statSync\<close> it had then, and the
  dependency messages that are there when the hook starts name such files only. Then every
  pass after the first decides \<open>Incremental\<close> and does not call \<^verbatim>\<open>compile\<close>: the handle is
  not created again.
\<close>

theorem unchanged_files_stay_incremental:
  assumes "compile (inv_world first) (inv_root first)
             (dirname_resolve (inv_world first) (inputFile_of from)) = (deps, Inr c)"
    and "stat (inv_world first) (inputFile_of from) \<noteq> None"
    and "\<forall>i \<in> set rest. set (concat (map dependency_file (inv_messages i))) \<subseteq>
           set (checked_files from (inv_messages first) deps)"
    and "\<forall>i \<in> set rest. \<forall>f \<in> set (checked_files from (inv_messages first) deps).
           stat (inv_world i) f = stat (inv_world first) f"
  shows "\<forall>x \<in> set (tl (OnceExit_sequence p from newContext (first # rest))).
     Decided Incremental \<in> set (events (fst x)) \<and> Decided Full \<notin> set (events (fst x)) \<and>
     (\<forall>rootCss bp. Compile rootCss bp \<notin> set (events (fst x)))"
proof -
  obtain s r where pass:
    "OnceExit_entry p (inv_world first) (inv_root first) from (inv_messages first) newContext = (s, r)"
    by (cases "OnceExit_entry p (inv_world first) (inv_root first) from (inv_messages first)
          (newContext :: 'a cache_entry)") auto
  have none: "compiler (newContext :: 'a cache_entry) = None"
    by (simp add: newContext_def)
  note settled = first_pass_settles [OF none assms(1) pass]
  have "\<forall>x \<in> set (OnceExit_sequence p from (ctx s) rest).
     Decided Incremental \<in> set (events (fst x)) \<and> Decided Full \<notin> set (events (fst x)) \<and>
     (\<forall>rootCss bp. Compile rootCss bp \<notin> set (events (fst x)))"
  proof (rule steady_sequence [where T = "set (checked_files from (inv_messages first) deps)"
        and st = "stat (inv_world first)"])
    show "compiler (ctx s) \<noteq> None" using settled by simp
    show "set (fullRebuildPaths (ctx s)) \<subseteq> set (checked_files from (inv_messages first) deps)"
      using settled by (auto simp: checked_files_def)
    show "\<forall>f \<in> set (checked_files from (inv_messages first) deps).
        \<forall>t. stat (inv_world first) f = Some t \<longrightarrow> mtimes (ctx s) f = Some t"
      using settled by simp
    show "inputFile_of from \<in> set (checked_files from (inv_messages first) deps)"
      by (simp add: checked_files_def)
    show "stat (inv_world first) (inputFile_of from) \<noteq> None" by (rule assms(2))
    show "\<forall>i \<in> set rest. set (concat (map dependency_file (inv_messages i))) \<subseteq>
           set (checked_files from (inv_messages first) deps)" by (rule assms(3))
    show "\<forall>i \<in> set rest. \<forall>f \<in> set (checked_files from (inv_messages first) deps).
           stat (inv_world i) f = stat (inv_world first) f" by (rule assms(4))
  qed
  then show ?thesis using pass by simp
qed

theorem unchanged_files_stay_incremental_witness:
  "compile (inv_world (example_invocation (Some 1))) (inv_root (example_invocation (Some 1)))
     (dirname_resolve (inv_world (example_invocation (Some 1))) (inputFile_of (Some ''a.css''))) =
     ([''b.css'', ''gone.js''], Inr 0) \<and>
   stat (inv_world (example_invocation (Some 1))) (inputFile_of (Some ''a.css'')) = Some 1 \<and>
   Decided Incremental \<in> set (events (fst (example_passes ! 1))) \<and>
   Decided Full \<notin> set (events (fst (example_passes ! 1))) \<and>
   Compile ''@import'' ''/app'' \<notin> set (events (fst (example_passes ! 1))) \<and>
   Decided Incremental \<in> set (events (fst (example_passes ! 2))) \<and>
   Decided Full \<notin> set (events (fst (example_passes ! 2))) \<and>
   Compile ''@import'' ''/app'' \<notin> set (events (fst (example_passes ! 2)))"
proof -
  have h1: "compile (inv_world (example_invocation (Some 1))) (inv_root (example_invocation (Some 1)))
     (dirname_resolve (inv_world (example_invocation (Some 1))) (inputFile_of (Some ''a.css''))) =
     ([''b.css'', ''gone.js''], Inr 0)"
    by (simp add: example_defs)
  have h2': "stat (inv_world (example_invocation (Some 1))) (inputFile_of (Some ''a.css'')) = Some 1"
    by (simp add: example_defs inputFile_of_def)
  then have h2: "stat (inv_world (example_invocation (Some 1))) (inputFile_of (Some ''a.css'')) \<noteq> None"
    by simp
  have h3: "\<forall>i \<in> set [example_invocation (Some 1), example_invocation (Some 1)].
      set (concat (map dependency_file (inv_messages i))) \<subseteq>
      set (checked_files (Some ''a.css'') (inv_messages (example_invocation (Some 1)))
        [''b.css'', ''gone.js''])"
    by (simp add: example_defs)
  have h4: "\<forall>i \<in> set [example_invocation (Some 1), example_invocation (Some 1)].
      \<forall>f \<in> set (checked_files (Some ''a.css'') (inv_messages (example_invocation (Some 1)))
        [''b.css'', ''gone.js'']).
      stat (inv_world i) f = stat (inv_world (example_invocation (Some 1))) f"
    by simp
  have later: "\<forall>x \<in> set (tl example_passes).
      Decided Incremental \<in> set (events (fst x)) \<and> Decided Full \<notin> set (events (fst x)) \<and>
      (\<forall>rootCss bp. Compile rootCss bp \<notin> set (events (fst x)))"
    using unchanged_files_stay_incremental [OF h1 h2 h3 h4, of example_plugin]
    by (simp add: example_passes_def)
  have len: "length example_passes = 3"
    using arg_cong [OF example_passes_value, of length] by simp
  have "tl example_passes ! 0 \<in> set (tl example_passes)"
    by (rule nth_mem) (simp add: len)
  then have m1: "example_passes ! 1 \<in> set (tl example_passes)"
    by (simp add: nth_tl len)
  have "tl example_passes ! 1 \<in> set (tl example_passes)"
    by (rule nth_mem) (simp add: len)
  then have m2: "example_passes ! 2 \<in> set (tl example_passes)"
    by (simp add: nth_tl len numeral_2_eq_2)
  have p1: "Decided Incremental \<in> set (events (fst (example_passes ! 1))) \<and>
      Decided Full \<notin> set (events (fst (example_passes ! 1))) \<and>
      (\<forall>rootCss bp. Compile rootCss bp \<notin> set (events (fst (example_passes ! 1))))"
    using later m1 by (rule bspec)
  have p2: "Decided Incremental \<in> set (events (fst (example_passes ! 2))) \<and>
      Decided Full \<notin> set (events (fst (example_passes ! 2))) \<and>
      (\<forall>rootCss bp. Compile rootCss bp \<notin> set (events (fst (example_passes ! 2))))"
    using later m2 by (rule bspec)
  show ?thesis
    using h1 h2' p1 p2 by simp
qed

text \<open>
  C2. The entry has a handle, and a path of \<^verbatim>\<open>fullRebuildPaths\<close> is on disk with a time
  that is not the recorded one (or none is recorded). Then the pass decides \<open>Full\<close>, the
  clock has the time found on disk, \<^verbatim>\<open>fullRebuildPaths\<close> is what \<^verbatim>\<open>onDependency\<close> reports
  in this pass, and \<^verbatim>\<open>compile\<close> is called before any build: when it throws the pass ends
  there with the old handle and no build, and when it returns the build runs on the new
  handle.
\<close>

theorem changed_dependency_forces_full:
  assumes "compiler context = Some c0"
    and "file \<in> set (fullRebuildPaths context)"
    and "stat w file = Some t"
    and "mtimes context file \<noteq> Some t"
    and "OnceExit_entry p w rootCss from msgs context = (s, r)"
  shows "mtimes (ctx s) file = Some t \<and>
     fullRebuildPaths (ctx s) = fst (compile w rootCss (dirname_resolve w (inputFile_of from))) \<and>
     (case snd (compile w rootCss (dirname_resolve w (inputFile_of from))) of
        Inl e \<Rightarrow>
          r = Inl e \<and> compiler (ctx s) = Some c0 \<and>
          events s =
            [Decided Full, Scan (plugin_base p) (globs w c0),
             ClearRequireCache (fullRebuildPaths context),
             Compile rootCss (dirname_resolve w (inputFile_of from))]
      | Inr c' \<Rightarrow>
          (let candidates = fst (scan w (plugin_base p) (globs w c0)) in
           compiler (ctx s) = Some (fst (build w c' candidates)) \<and>
           (\<exists>rest. events s =
               [Decided Full, Scan (plugin_base p) (globs w c0),
                ClearRequireCache (fullRebuildPaths context),
                Compile rootCss (dirname_resolve w (inputFile_of from)),
                Build candidates (snd (build w c' candidates))] @ rest)))"
proof -
  let ?files = "checked_files from msgs (fullRebuildPaths context)"
  let ?tr = "trackFiles (stat w) (inputFile_of from) ?files (Incremental, mtimes context)"
  have mem: "file \<in> set ?files"
    using assms(2) by (simp add: checked_files_def)
  have full: "fst ?tr = Full"
    using mem assms(3,4) by (auto simp: trackFiles_strategy)
  have clock: "snd ?tr file = Some t"
    using mem assms(3) by (simp add: trackFiles_clock)
  obtain mt where tr: "?tr = (Full, mt)" and mt: "mt file = Some t"
    using full clock by (cases ?tr) auto
  obtain candidates files gs where sc: "scan w (plugin_base p) (globs w c0) = (candidates, files, gs)"
    by (cases "scan w (plugin_base p) (globs w c0)") auto
  obtain deps cr where co: "compile w rootCss (dirname_resolve w (inputFile_of from)) = (deps, cr)"
    by (cases "compile w rootCss (dirname_resolve w (inputFile_of from))") auto
  note pass = assms(5) [unfolded OnceExit_entry_with_compiler [OF assms(1) tr sc]]
  show ?thesis
  proof (cases cr)
    case (Inl e)
    then show ?thesis
      using assms(1) pass mt sc co
      by (auto simp: buildAndReplace_def rebuildCompiler_def createCompiler_def)
  next
    case (Inr c')
    obtain c'' br where bu: "build w c' candidates = (c'', br)"
      by (cases "build w c' candidates") auto
    show ?thesis
    proof (cases br)
      case (Inl e)
      then show ?thesis
        using pass mt sc co Inr bu
        by (auto simp: buildAndReplace_def rebuildCompiler_def createCompiler_def buildCss_def)
    next
      case (Inr newCss)
      then show ?thesis
        using pass mt sc co \<open>cr = Inr c'\<close> bu
        by (auto simp: buildAndReplace_def rebuildCompiler_def createCompiler_def buildCss_def
            replaceCss_def Let_def)
    qed
  qed
qed

theorem changed_dependency_forces_full_witness:
  "compiler example_entry = Some 1 \<and> ''b.css'' \<in> set (fullRebuildPaths example_entry) \<and>
   stat (example_world (Some 2) example_build) ''b.css'' = Some 2 \<and>
   mtimes example_entry ''b.css'' \<noteq> Some 2 \<and>
   mtimes (ctx (fst touched_pass)) ''b.css'' = Some 2 \<and>
   fullRebuildPaths (ctx (fst touched_pass)) = [''b.css'', ''gone.js''] \<and>
   compiler (ctx (fst touched_pass)) = Some 1 \<and>
   (\<exists>rest. events (fst touched_pass) =
      [Decided Full, Scan ''/app'' [(''/app'', ''*.html'')],
       ClearRequireCache [''b.css'', ''gone.js''], Compile ''@import'' ''/app'',
       Build [''flex''] (Inr ''flex'')] @ rest)"
proof -
  have h1: "compiler example_entry = Some 1"
    by (simp add: example_entry_value)
  have h2: "''b.css'' \<in> set (fullRebuildPaths example_entry)"
    by (simp add: example_entry_value)
  have h3: "stat (example_world (Some 2) example_build) ''b.css'' = Some 2"
    by (simp add: example_defs)
  have h4: "mtimes example_entry ''b.css'' \<noteq> Some 2"
    by (simp add: example_entry_value)
  have h5: "OnceExit_entry example_plugin (example_world (Some 2) example_build) ''@import''
       (Some ''a.css'') [] example_entry = (fst touched_pass, snd touched_pass)"
    by (simp add: touched_pass_def)
  have fr: "fullRebuildPaths example_entry = [''b.css'', ''gone.js'']"
    by (simp add: example_entry_value)
  show ?thesis
    using changed_dependency_forces_full [OF h1 h2 h3 h4 h5] h1 h2 h3 h4
    by (simp add: example_defs inputFile_of_def fr)
qed

text \<open>
  C3. Whenever a pass decides a strategy, it is \<open>Full\<close> exactly when the entry point is
  missing on disk or some checked file is on disk with a time other than the recorded
  one. So a missing entry point forces \<open>Full\<close>, and a missing path that is not the entry
  point never does.
\<close>

theorem missing_entry_forces_full_only:
  assumes "OnceExit_entry p w rootCss from msgs context = (s, r)"
    and "Decided strategy \<in> set (events s)"
  shows "strategy = Full \<longleftrightarrow>
     stat w (inputFile_of from) = None \<or>
     (\<exists>f \<in> set (checked_files from msgs (tracked_paths w rootCss from context)).
        \<exists>t. stat w f = Some t \<and> mtimes context f \<noteq> Some t)"
proof -
  have "inputFile_of from \<in> set (checked_files from msgs (tracked_paths w rootCss from context))"
    by (simp add: checked_files_def)
  then show ?thesis
    unfolding decided_is_tracked [OF assms] trackFiles_strategy by auto
qed

theorem missing_entry_forces_full_only_witness:
  "Decided Incremental \<in> set (events (fst deleted_pass)) \<and>
   ''b.css'' \<in> set (tracked_paths (example_world None example_build) ''@import''
      (Some ''a.css'') example_entry) \<and>
   stat (example_world None example_build) ''b.css'' = None \<and>
   \<not> (stat (example_world None example_build) (inputFile_of (Some ''a.css'')) = None \<or>
      (\<exists>f \<in> set (checked_files (Some ''a.css'') []
           (tracked_paths (example_world None example_build) ''@import'' (Some ''a.css'')
              example_entry)).
         \<exists>t. stat (example_world None example_build) f = Some t \<and>
           mtimes example_entry f \<noteq> Some t))"
proof -
  have h1: "OnceExit_entry example_plugin (example_world None example_build) ''@import''
       (Some ''a.css'') [] example_entry = (fst deleted_pass, snd deleted_pass)"
    by (simp add: deleted_pass_def)
  have h2: "Decided Incremental \<in> set (events (fst deleted_pass))"
    by (simp add: deleted_pass_value)
  show ?thesis
    using missing_entry_forces_full_only [OF h1 h2] h2
    by (simp add: tracked_paths_def example_entry_value example_defs)
qed

section \<open>The optimizer\<close>

text \<open>
  C4, as the claim states it, fails: in the second and the third of three passes with
  nothing changing, the built CSS is the same and the optimizer is called in neither, so
  it runs zero times across the two, not once.
\<close>

theorem unchanged_css_counterexample:
  "truthy (plugin_optimize example_plugin) \<and>
   snd (example_passes ! 1) = Inr ''min flex'' \<and> snd (example_passes ! 2) = Inr ''min flex'' \<and>
   css (ctx (fst (example_passes ! 2))) = css (ctx (fst (example_passes ! 1))) \<and>
   optimize_calls (fst (example_passes ! 1)) + optimize_calls (fst (example_passes ! 2)) = 0"
  using example_passes_nth [of 1] example_passes_nth [of 2]
  by (simp add: optimize_calls_def example_plugin_def)

text \<open>
  C4, amended. Two passes follow each other on one entry, the plugin optimizes, both
  return, and the second builds the CSS the first built. Then the second pass does not
  call the optimizer and emits the optimized CSS the first left in the entry, which is
  what the first emitted; across the two passes the optimizer is called at most once:
  once when the first pass built CSS other than what the entry held before it, and not at
  all otherwise.
\<close>

theorem unchanged_css_not_optimized_again:
  assumes "truthy (plugin_optimize p)"
    and "OnceExit_entry p w1 root1 from msgs1 context = (s1, Inr out1)"
    and "OnceExit_entry p w2 root2 from msgs2 (ctx s1) = (s2, Inr out2)"
    and "css (ctx s2) = css (ctx s1)"
  shows "optimize_calls s2 = 0 \<and> out2 = optimizedCss (ctx s1) \<and> out2 = out1 \<and>
     optimize_calls s1 + optimize_calls s2 = (if css (ctx s1) = css context then 0 else 1)"
  using successful_pass [OF assms(2)] successful_pass [OF assms(3)] assms(1,4)
  by simp

theorem unchanged_css_not_optimized_again_witness:
  "truthy (plugin_optimize example_plugin) \<and>
   snd (example_passes ! 0) = Inr ''min flex'' \<and> snd steady_pass = Inr ''min flex'' \<and>
   css (ctx (fst steady_pass)) = css example_entry \<and>
   css example_entry \<noteq> css (newContext :: nat cache_entry) \<and>
   optimize_calls (fst steady_pass) = 0 \<and>
   optimize_calls (fst (example_passes ! 0)) + optimize_calls (fst steady_pass) = 1"
proof -
  have h1: "truthy (plugin_optimize example_plugin)"
    by (simp add: example_plugin_def)
  have first: "OnceExit_entry example_plugin (example_world (Some 1) example_build) ''@import''
     (Some ''a.css'') [] newContext = example_passes ! 0"
    by (simp add: example_passes_def example_invocation_def split: prod.split)
  have out: "snd (example_passes ! 0) = Inr ''min flex''"
    using example_passes_nth [of 0] by simp
  have h2: "OnceExit_entry example_plugin (example_world (Some 1) example_build) ''@import''
     (Some ''a.css'') [] newContext = (fst (example_passes ! 0), Inr ''min flex'')"
    using first out by (metis prod.collapse)
  have entry: "ctx (fst (example_passes ! 0)) = example_entry"
    using first by (simp add: example_entry_def)
  have out2: "snd steady_pass = Inr ''min flex''"
    by (simp add: steady_pass_value)
  have h3: "OnceExit_entry example_plugin (example_world (Some 1) example_build) ''@import''
     (Some ''a.css'') [] (ctx (fst (example_passes ! 0))) = (fst steady_pass, Inr ''min flex'')"
    using out2 unfolding entry steady_pass_def by (metis prod.collapse)
  have same: "css (ctx (fst steady_pass)) = css example_entry"
    by (simp add: steady_pass_value example_entry_value)
  have h4: "css (ctx (fst steady_pass)) = css (ctx (fst (example_passes ! 0)))"
    unfolding entry by (rule same)
  have differs: "css example_entry \<noteq> css (newContext :: nat cache_entry)"
    by (simp add: example_entry_value newContext_def)
  have "optimize_calls (fst steady_pass) = 0 \<and>
     optimize_calls (fst (example_passes ! 0)) + optimize_calls (fst steady_pass) = 1"
    using unchanged_css_not_optimized_again [OF h1 h2 h3 h4] differs unfolding entry by simp
  then show ?thesis
    using h1 out out2 same differs by simp
qed

section \<open>Failures and what always runs\<close>

text \<open>
  C5. When the call of \<^verbatim>\<open>build\<close> throws, the pass ends there with that error, and the
  fields \<^verbatim>\<open>css\<close> and \<^verbatim>\<open>optimizedCss\<close> of the entry are what they were before the pass.
\<close>

theorem build_failure_keeps_css:
  assumes "OnceExit_entry p w rootCss from msgs context = (s, r)"
    and "Build candidates (Inl e) \<in> set (events s)"
  shows "r = Inl e \<and> last (events s) = Build candidates (Inl e) \<and>
     css (ctx s) = css context \<and> optimizedCss (ctx s) = optimizedCss context"
  using assms(1)
proof (cases rule: pass_cases)
  case (abort e')
  then show ?thesis using assms(2) by simp
next
  case (run c1 pre st mt cands post)
  have "Build candidates (Inl e) \<notin> set pre"
    using run(3) by auto
  then have "Build candidates (Inl e) \<in> set post"
    using assms(2) run(7) by auto
  then show ?thesis
    using run(7,8) by (auto split: if_splits)
qed

theorem build_failure_keeps_css_witness:
  "Build [''flex''] (Inl (Thrown ''build failed'')) \<in> set (events (fst failed_pass)) \<and>
   snd failed_pass = Inl (Thrown ''build failed'') \<and>
   css (ctx (fst failed_pass)) = css example_entry \<and>
   optimizedCss (ctx (fst failed_pass)) = optimizedCss example_entry"
proof -
  have h1: "OnceExit_entry example_plugin (example_world (Some 1) failing_build) ''@import''
       (Some ''a.css'') [] example_entry = (fst failed_pass, snd failed_pass)"
    by (simp add: failed_pass_def)
  have h2: "Build [''flex''] (Inl (Thrown ''build failed'')) \<in> set (events (fst failed_pass))"
    by (simp add: failed_pass_value)
  show ?thesis
    using build_failure_keeps_css [OF h1 h2] h2 by simp
qed

text \<open>
  C6. In every pass that decides \<open>Incremental\<close>, and in every pass in which \<^verbatim>\<open>compile\<close>
  does not throw, whatever the strategy and whether or not a file changed, the scanner
  and \<^verbatim>\<open>build\<close> both run, once each and in that order: the scanner is given the base of
  the plugin and the globs of the handle the entry has when the loop ends, its files and
  globs are the last messages of the pass, \<^verbatim>\<open>build\<close> is called on the handle of the entry
  (the new one under \<open>Full\<close>) with the candidates that this scan returned, the entry keeps
  the handle as that call left it, and what the pass returns is what that call returned:
  its error, or its CSS (optimized when the plugin optimizes). Nothing but creations of
  the handle comes before or between them, nothing but the optimizer after. The only
  passes without both are those that a throwing \<^verbatim>\<open>compile\<close> ends.
\<close>

theorem scan_and_build_always_run:
  assumes "OnceExit_entry p w rootCss from msgs context = (s, r)"
    and "snd (compile w rootCss (dirname_resolve w (inputFile_of from))) = Inr c \<or>
         Decided Incremental \<in> set (events s)"
  shows "\<exists>c1 c4 strategy pre mid rest.
     (compiler context = Some c1 \<and> pre = [] \<or>
      compiler context = None \<and>
        snd (compile w rootCss (dirname_resolve w (inputFile_of from))) = Inr c1 \<and>
        pre = [ClearRequireCache (fullRebuildPaths context),
          Compile rootCss (dirname_resolve w (inputFile_of from))]) \<and>
     strategy = fst (trackFiles (stat w) (inputFile_of from)
        (checked_files from msgs (tracked_paths w rootCss from context))
        (Incremental, mtimes context)) \<and>
     (strategy = Incremental \<and> c4 = c1 \<and> mid = [] \<or>
      strategy = Full \<and>
        snd (compile w rootCss (dirname_resolve w (inputFile_of from))) = Inr c4 \<and>
        mid = [ClearRequireCache (tracked_paths w rootCss from context),
          Compile rootCss (dirname_resolve w (inputFile_of from))]) \<and>
     events s =
       pre @ [Decided strategy, Scan (plugin_base p) (globs w c1)] @ mid @
       Build (fst (scan w (plugin_base p) (globs w c1)))
         (snd (build w c4 (fst (scan w (plugin_base p) (globs w c1))))) # rest \<and>
     list_all is_Optimize rest \<and>
     messages s =
       msgs @
       map (\<lambda>file. Dependency ''@tailwindcss/postcss'' file from)
         (tracked_paths w rootCss from context) @
       map (\<lambda>file. Dependency ''@tailwindcss/postcss'' file from)
         (fst (snd (scan w (plugin_base p) (globs w c1)))) @
       map (\<lambda>(b, pattern). DirDependency ''@tailwindcss/postcss'' b pattern from)
         (snd (snd (scan w (plugin_base p) (globs w c1)))) \<and>
     compiler (ctx s) = Some (fst (build w c4 (fst (scan w (plugin_base p) (globs w c1))))) \<and>
     (case snd (build w c4 (fst (scan w (plugin_base p) (globs w c1)))) of
        Inl e \<Rightarrow> r = Inl e
      | Inr newCss \<Rightarrow>
          css (ctx s) = newCss \<and>
          r = Inr (if truthy (plugin_optimize p) then optimizedCss (ctx s) else newCss))"
  using assms(1)
proof (cases rule: OnceExit_entry_cases)
  case (abort deps e)
  then show ?thesis using assms(2) by simp
next
  case (run c1 context1 pre strategy mt candidates ms)
  let ?b = "dirname_resolve w (inputFile_of from)"
  let ?s3 = "\<lparr>ctx = context1\<lparr>mtimes := mt\<rparr>, messages = ms,
     events = pre @ [Decided strategy, Scan (plugin_base p) (globs w c1)]\<rparr>"
  have handle: "compiler context = Some c1 \<and> pre = [] \<or>
      compiler context = None \<and> snd (compile w rootCss ?b) = Inr c1 \<and>
        pre = [ClearRequireCache (fullRebuildPaths context), Compile rootCss ?b]"
    using run(6,7,13) by (cases "compiler context") auto
  have strategy: "strategy = fst (trackFiles (stat w) (inputFile_of from)
      (checked_files from msgs (tracked_paths w rootCss from context))
      (Incremental, mtimes context))"
    using run(9) by simp
  have ok: "strategy = Incremental \<or> snd (compile w rootCss ?b) = Inr c"
  proof (cases "Decided Incremental \<in> set (events s)")
    case True
    then have "Incremental = strategy"
      using decided_is_tracked [OF assms(1) True] strategy by simp
    then show ?thesis by simp
  next
    case False
    then show ?thesis using assms(2) by simp
  qed
  from buildAndReplace_build_call [OF run(11) ok]
  obtain c4 mid rest where
    b1: "strategy = Incremental \<and> c4 = c1 \<and> mid = [] \<or>
      strategy = Full \<and> snd (compile w rootCss ?b) = Inr c4 \<and>
        mid = [ClearRequireCache (fullRebuildPaths (ctx ?s3)), Compile rootCss ?b]"
    and b2: "events s = events ?s3 @ mid @ Build candidates (snd (build w c4 candidates)) # rest"
    and b3: "list_all is_Optimize rest"
    and b4: "messages s = messages ?s3"
    and b5: "compiler (ctx s) = Some (fst (build w c4 candidates))"
    and b6: "case snd (build w c4 candidates) of
        Inl e \<Rightarrow> r = Inl e
      | Inr newCss \<Rightarrow>
          css (ctx s) = newCss \<and>
          r = Inr (if truthy (plugin_optimize p) then optimizedCss (ctx s) else newCss)"
    by (elim exE conjE)
  have b1': "strategy = Incremental \<and> c4 = c1 \<and> mid = [] \<or>
      strategy = Full \<and> snd (compile w rootCss ?b) = Inr c4 \<and>
        mid = [ClearRequireCache (tracked_paths w rootCss from context), Compile rootCss ?b]"
    using b1 run(2) by simp
  have b2': "events s =
       pre @ [Decided strategy, Scan (plugin_base p) (globs w c1)] @ mid @
       Build (fst (scan w (plugin_base p) (globs w c1)))
         (snd (build w c4 (fst (scan w (plugin_base p) (globs w c1))))) # rest"
    using b2 run(10) by simp
  have b4': "messages s =
       msgs @
       map (\<lambda>file. Dependency ''@tailwindcss/postcss'' file from)
         (tracked_paths w rootCss from context) @
       map (\<lambda>file. Dependency ''@tailwindcss/postcss'' file from)
         (fst (snd (scan w (plugin_base p) (globs w c1)))) @
       map (\<lambda>(b, pattern). DirDependency ''@tailwindcss/postcss'' b pattern from)
         (snd (snd (scan w (plugin_base p) (globs w c1))))"
    using b4 run(12) by simp
  have b5': "compiler (ctx s) =
      Some (fst (build w c4 (fst (scan w (plugin_base p) (globs w c1)))))"
    using b5 run(10) by simp
  have b6': "case snd (build w c4 (fst (scan w (plugin_base p) (globs w c1)))) of
        Inl e \<Rightarrow> r = Inl e
      | Inr newCss \<Rightarrow>
          css (ctx s) = newCss \<and>
          r = Inr (if truthy (plugin_optimize p) then optimizedCss (ctx s) else newCss)"
    using b6 unfolding run(10) .
  show ?thesis
    by (intro exI conjI) (rule handle strategy b1' b2' b3 b4' b5' b6')+
qed

theorem scan_and_build_always_run_witness:
  "Decided Incremental \<in> set (events (fst steady_pass)) \<and>
   compiler example_entry = Some 1 \<and>
   scan (example_world (Some 1) example_build) (plugin_base example_plugin)
     (globs (example_world (Some 1) example_build) 1) =
     ([''flex''], [''index.html''], [(''/app'', ''*.html'')]) \<and>
   build (example_world (Some 1) example_build) 1 [''flex''] = (2, Inr ''flex'') \<and>
   events (fst steady_pass) =
     [Decided Incremental, Scan ''/app'' [(''/app'', ''*.html'')], Build [''flex''] (Inr ''flex'')] \<and>
   compiler (ctx (fst steady_pass)) = Some 2 \<and>
   css (ctx (fst steady_pass)) = ''flex'' \<and>
   snd steady_pass = Inr (optimizedCss (ctx (fst steady_pass)))"
proof -
  let ?w = "example_world (Some 1) example_build"
  have h1: "OnceExit_entry example_plugin ?w ''@import''
       (Some ''a.css'') [] example_entry = (fst steady_pass, snd steady_pass)"
    by (simp add: steady_pass_def)
  have h2: "Decided Incremental \<in> set (events (fst steady_pass))"
    by (simp add: steady_pass_value)
  have h3: "snd (compile ?w ''@import'' (dirname_resolve ?w (inputFile_of (Some ''a.css'')))) =
      Inr 0 \<or> Decided Incremental \<in> set (events (fst steady_pass))"
    using h2 by simp
  have entry: "compiler example_entry = Some 1"
    by (simp add: example_entry_value)
  have sc: "scan ?w (plugin_base example_plugin) (globs ?w 1) =
      ([''flex''], [''index.html''], [(''/app'', ''*.html'')])"
    by (simp add: example_defs)
  have bu: "build ?w 1 [''flex''] = (2, Inr ''flex'')"
    by (simp add: example_defs)
  from scan_and_build_always_run [OF h1 h3]
  obtain c1 c4 strategy pre mid rest where
    a1: "compiler example_entry = Some c1 \<and> pre = [] \<or>
      compiler example_entry = None \<and>
        snd (compile ?w ''@import'' (dirname_resolve ?w (inputFile_of (Some ''a.css'')))) = Inr c1 \<and>
        pre = [ClearRequireCache (fullRebuildPaths example_entry),
          Compile ''@import'' (dirname_resolve ?w (inputFile_of (Some ''a.css'')))]"
    and a3: "strategy = Incremental \<and> c4 = c1 \<and> mid = [] \<or>
      strategy = Full \<and>
        snd (compile ?w ''@import'' (dirname_resolve ?w (inputFile_of (Some ''a.css'')))) = Inr c4 \<and>
        mid = [ClearRequireCache (tracked_paths ?w ''@import'' (Some ''a.css'') example_entry),
          Compile ''@import'' (dirname_resolve ?w (inputFile_of (Some ''a.css'')))]"
    and a4: "events (fst steady_pass) =
       pre @ [Decided strategy, Scan (plugin_base example_plugin) (globs ?w c1)] @ mid @
       Build (fst (scan ?w (plugin_base example_plugin) (globs ?w c1)))
         (snd (build ?w c4 (fst (scan ?w (plugin_base example_plugin) (globs ?w c1))))) # rest"
    and a5: "list_all is_Optimize rest"
    and a7: "compiler (ctx (fst steady_pass)) =
      Some (fst (build ?w c4 (fst (scan ?w (plugin_base example_plugin) (globs ?w c1)))))"
    and a8: "case snd (build ?w c4 (fst (scan ?w (plugin_base example_plugin) (globs ?w c1)))) of
        Inl e \<Rightarrow> snd steady_pass = Inl e
      | Inr newCss \<Rightarrow>
          css (ctx (fst steady_pass)) = newCss \<and>
          snd steady_pass = Inr (if truthy (plugin_optimize example_plugin)
            then optimizedCss (ctx (fst steady_pass)) else newCss)"
    by (elim exE conjE)
  have c1: "c1 = 1" and pre: "pre = []"
    using a1 entry by auto
  have "Decided strategy \<in> set (events (fst steady_pass))"
    unfolding a4 by simp
  then have "Decided strategy \<in> set [Decided Incremental, Scan ''/app'' [(''/app'', ''*.html'')],
      Build [''flex''] (Inr ''flex'')]"
    by (simp add: steady_pass_value)
  then have st: "strategy = Incremental"
    by simp
  have c4: "c4 = 1" and mid: "mid = []"
    using a3 st c1 by auto
  have ev: "events (fst steady_pass) =
     [Decided Incremental, Scan ''/app'' [(''/app'', ''*.html'')], Build [''flex''] (Inr ''flex'')] @ rest"
    using a4 by (simp add: c1 c4 pre mid st example_defs)
  then have rest: "rest = []"
    by (simp add: steady_pass_value)
  have cm: "compiler (ctx (fst steady_pass)) = Some 2"
    using a7 by (simp add: c1 c4 example_defs)
  have out: "css (ctx (fst steady_pass)) = ''flex'' \<and>
      snd steady_pass = Inr (optimizedCss (ctx (fst steady_pass)))"
    using a8 by (simp add: c1 c4 example_defs)
  show ?thesis
    using h2 entry sc bu ev rest cm out by simp
qed

text \<open>
  C7. When the plugin does not optimize, a pass that returns emits the CSS that its own
  call of \<^verbatim>\<open>build\<close> returned, and leaves \<^verbatim>\<open>optimizedCss\<close> of the entry alone.
\<close>

theorem no_optimize_emits_raw:
  assumes "OnceExit_entry p w rootCss from msgs context = (s, Inr out)"
    and "\<not> truthy (plugin_optimize p)"
  shows "(\<exists>candidates. last (events s) = Build candidates (Inr out)) \<and> css (ctx s) = out \<and>
     optimizedCss (ctx s) = optimizedCss context"
  using assms(1)
proof (cases rule: pass_cases)
  case (abort e)
  then show ?thesis by simp
next
  case (run c1 pre st mt cands post)
  then show ?thesis
    using assms(2) by (auto split: if_splits)
qed

theorem no_optimize_emits_raw_witness:
  "\<not> truthy (plugin_optimize raw_plugin) \<and> raw_pass = (fst raw_pass, Inr ''flex'') \<and>
   optimizedCss example_entry = ''min flex'' \<and>
   (\<exists>candidates. last (events (fst raw_pass)) = Build candidates (Inr ''flex'')) \<and>
   css (ctx (fst raw_pass)) = ''flex''"
proof -
  have h1: "OnceExit_entry raw_plugin (example_world (Some 1) example_build) ''@import''
       (Some ''a.css'') [] example_entry = (fst raw_pass, Inr ''flex'')"
    using raw_pass_value unfolding raw_pass_def by (metis prod.collapse)
  have h2: "\<not> truthy (plugin_optimize raw_plugin)"
    by (simp add: raw_plugin_def)
  show ?thesis
    using no_optimize_emits_raw [OF h1 h2] h1 h2
    by (simp add: raw_pass_def example_entry_value)
qed

section \<open>Defaults of the options\<close>

text \<open>
  C8. Constructed without options, the plugin scans the current working directory, and
  it optimizes exactly when \<^verbatim>\<open>NODE_ENV\<close> is \<^verbatim>\<open>production\<close>.
\<close>

theorem tailwindcss_defaults:
  "plugin_base (tailwindcss pr no_options) = cwd pr \<and>
   truthy (plugin_optimize (tailwindcss pr no_options)) = (NODE_ENV pr = Some ''production'')"
  by (simp add: tailwindcss_def no_options_def)

section \<open>The cache of the plugin instance\<close>

text \<open>
  C9. A pass whose input has no \<^verbatim>\<open>from\<close> runs on the entry under the key \<^verbatim>\<open>''\<close>, which
  is created when it is not there, and leaves the entry under that key; a second such
  pass, whatever its root, messages and collaborators, runs on the entry the first left.
\<close>

theorem pathless_inputs_share_entry:
  "OnceExit p w rootCss None msgs cache =
     (case OnceExit_entry p w rootCss None msgs
             (case cache [] of Some context \<Rightarrow> context | None \<Rightarrow> newContext) of
        (s, r) \<Rightarrow> (cache([] \<mapsto> ctx s), s, r)) \<and>
   OnceExit p w2 root2 None msgs2 (fst (OnceExit p w rootCss None msgs cache)) =
     (case OnceExit_entry p w2 root2 None msgs2
             (ctx (fst (snd (OnceExit p w rootCss None msgs cache)))) of
        (s, r) \<Rightarrow> (cache([] \<mapsto> ctx s), s, r))"
  by (simp add: OnceExit_def DefaultMap_get_def inputFile_of_def
      split: option.split prod.split)

section \<open>Missing files and the clock\<close>

text \<open>
  C10. A path that is missing on disk during a pass keeps its recorded time. When it is
  back in the next pass with that time, and the entry point is on disk and no other
  checked file has a time other than its recorded one, that pass does not decide
  \<open>Full\<close>.
\<close>

theorem missing_dependency_keeps_recorded_time:
  assumes "stat w1 f = None"
    and "mtimes context f = Some t"
    and "OnceExit_entry p w1 root1 from msgs1 context = (s1, r1)"
    and "stat w2 f = Some t"
    and "OnceExit_entry p w2 root2 from msgs2 (ctx s1) = (s2, r2)"
    and "stat w2 (inputFile_of from) \<noteq> None"
    and "\<forall>g \<in> set (checked_files from msgs2 (tracked_paths w2 root2 from (ctx s1))).
           g \<noteq> f \<longrightarrow> (\<forall>u. stat w2 g = Some u \<longrightarrow> mtimes (ctx s1) g = Some u)"
  shows "mtimes (ctx s1) f = mtimes context f \<and> Decided Full \<notin> set (events s2)"
proof -
  have kept: "mtimes (ctx s1) f = mtimes context f"
    using pass_clock [OF assms(3), of f] assms(1) by auto
  have "Decided Full \<notin> set (events s2)"
  proof
    assume full: "Decided Full \<in> set (events s2)"
    have "fst (trackFiles (stat w2) (inputFile_of from)
       (checked_files from msgs2 (tracked_paths w2 root2 from (ctx s1)))
       (Incremental, mtimes (ctx s1))) = Full"
      using decided_is_tracked [OF assms(5) full] by simp
    then obtain g u where
      g: "g \<in> set (checked_files from msgs2 (tracked_paths w2 root2 from (ctx s1)))"
      and changed: "stat w2 g = Some u" "mtimes (ctx s1) g \<noteq> Some u"
      unfolding trackFiles_strategy using assms(6) by auto
    have "g \<noteq> f"
      using changed kept assms(2,4) by auto
    then show False
      using assms(7) g changed by blast
  qed
  with kept show ?thesis by simp
qed

theorem missing_dependency_keeps_recorded_time_witness:
  "stat (example_world None example_build) ''b.css'' = None \<and>
   mtimes example_entry ''b.css'' = Some 1 \<and>
   stat (example_world (Some 1) example_build) ''b.css'' = Some 1 \<and>
   mtimes (ctx (fst deleted_pass)) ''b.css'' = Some 1 \<and>
   Decided Full \<notin> set (events (fst restored_pass))"
proof -
  have h1: "stat (example_world None example_build) ''b.css'' = None"
    by (simp add: example_defs)
  have h2: "mtimes example_entry ''b.css'' = Some 1"
    by (simp add: example_entry_value)
  have h3: "OnceExit_entry example_plugin (example_world None example_build) ''@import''
       (Some ''a.css'') [] example_entry = (fst deleted_pass, snd deleted_pass)"
    by (simp add: deleted_pass_def)
  have h4: "stat (example_world (Some 1) example_build) ''b.css'' = Some 1"
    by (simp add: example_defs)
  have h5: "OnceExit_entry example_plugin (example_world (Some 1) example_build) ''@import''
       (Some ''a.css'') [] (ctx (fst deleted_pass)) = (fst restored_pass, snd restored_pass)"
    by (simp add: restored_pass_def)
  have h6: "stat (example_world (Some 1) example_build) (inputFile_of (Some ''a.css'')) \<noteq> None"
    by (simp add: example_defs inputFile_of_def)
  have tracked: "tracked_paths (example_world (Some 1) example_build) ''@import'' (Some ''a.css'')
      (ctx (fst deleted_pass)) = [''b.css'', ''gone.js'']"
    by (simp add: tracked_paths_def deleted_pass_value)
  have h7: "\<forall>g \<in> set (checked_files (Some ''a.css'') []
        (tracked_paths (example_world (Some 1) example_build) ''@import'' (Some ''a.css'')
          (ctx (fst deleted_pass)))).
      g \<noteq> ''b.css'' \<longrightarrow>
      (\<forall>u. stat (example_world (Some 1) example_build) g = Some u \<longrightarrow>
         mtimes (ctx (fst deleted_pass)) g = Some u)"
    unfolding tracked
    by (simp add: checked_files_def inputFile_of_def example_defs deleted_pass_value)
  show ?thesis
    using missing_dependency_keeps_recorded_time [OF h1 h2 h3 h4 h5 h6 h7] h1 h2 h4
    by simp
qed

end
